theory Spec2Isabelle
  imports Complex_Main "HOL-Library.AList"
begin

section \<open>JavaScript numbers\<close>

text \<open>
  The program computes with JavaScript numbers. A finite number is modelled by a real, and
  the two zeros are one. The three values that are not finite are kept, because the code
  produces them from ordinary inputs: \<open>3 / 0\<close> is \<open>Infinity\<close> and
  \<open>5 - undefined\<close> is \<open>NaN\<close>. The operations of this section are exact: they
  are the operations of the language where those do not round, on the integers up to
  \<open>2^53\<close> in particular. The viewport, whose results are fractions, rounds every
  result (see there).
  Equality of \<open>jsnum\<close> is equality of representations (so \<open>NaN = NaN\<close> here);
  the comparisons of the language are \<open>js_lt\<close> and \<open>js_gt\<close>, false on \<open>NaN\<close>.
\<close>

datatype jsnum = NaN | NegInf | Num real | PosInf

fun js_neg :: "jsnum \<Rightarrow> jsnum" where
  "js_neg NaN = NaN"
| "js_neg NegInf = PosInf"
| "js_neg (Num x) = Num (- x)"
| "js_neg PosInf = NegInf"

fun js_add :: "jsnum \<Rightarrow> jsnum \<Rightarrow> jsnum" where
  "js_add NaN b = NaN"
| "js_add a NaN = NaN"
| "js_add PosInf NegInf = NaN"
| "js_add NegInf PosInf = NaN"
| "js_add PosInf b = PosInf"
| "js_add a PosInf = PosInf"
| "js_add NegInf b = NegInf"
| "js_add a NegInf = NegInf"
| "js_add (Num x) (Num y) = Num (x + y)"

definition js_sub :: "jsnum \<Rightarrow> jsnum \<Rightarrow> jsnum" where
  "js_sub a b = js_add a (js_neg b)"

text \<open>The sign of a number, with zero counted as positive (\<open>+0\<close>).\<close>

fun js_nonneg :: "jsnum \<Rightarrow> bool" where
  "js_nonneg NaN = True"
| "js_nonneg NegInf = False"
| "js_nonneg (Num x) = (0 \<le> x)"
| "js_nonneg PosInf = True"

fun js_is_zero :: "jsnum \<Rightarrow> bool" where
  "js_is_zero (Num x) = (x = 0)"
| "js_is_zero a = False"

definition js_signed_inf :: "bool \<Rightarrow> jsnum" where
  "js_signed_inf positive = (if positive then PosInf else NegInf)"

fun js_mul :: "jsnum \<Rightarrow> jsnum \<Rightarrow> jsnum" where
  "js_mul NaN b = NaN"
| "js_mul a NaN = NaN"
| "js_mul (Num x) (Num y) = Num (x * y)"
| "js_mul a b =
     (if js_is_zero a \<or> js_is_zero b then NaN
      else js_signed_inf (js_nonneg a = js_nonneg b))"

fun js_div :: "jsnum \<Rightarrow> jsnum \<Rightarrow> jsnum" where
  "js_div NaN b = NaN"
| "js_div a NaN = NaN"
| "js_div (Num x) (Num y) =
     (if y = 0 then (if x = 0 then NaN else js_signed_inf (0 < x)) else Num (x / y))"
| "js_div (Num x) b = Num 0"
| "js_div a (Num y) = js_signed_inf (js_nonneg a = (0 \<le> y))"
| "js_div a b = NaN"

fun js_lt :: "jsnum \<Rightarrow> jsnum \<Rightarrow> bool" where
  "js_lt NaN b = False"
| "js_lt a NaN = False"
| "js_lt (Num x) (Num y) = (x < y)"
| "js_lt PosInf b = False"
| "js_lt a NegInf = False"
| "js_lt NegInf b = True"
| "js_lt a PosInf = True"

definition js_gt :: "jsnum \<Rightarrow> jsnum \<Rightarrow> bool" where
  "js_gt a b = js_lt b a"

text \<open>\<open>Math.min\<close>, \<open>Math.max\<close> and \<open>Math.abs\<close>: \<open>NaN\<close> if an argument is.\<close>

definition js_min :: "jsnum \<Rightarrow> jsnum \<Rightarrow> jsnum" where
  "js_min a b = (if a = NaN \<or> b = NaN then NaN else if js_lt b a then b else a)"

definition js_max :: "jsnum \<Rightarrow> jsnum \<Rightarrow> jsnum" where
  "js_max a b = (if a = NaN \<or> b = NaN then NaN else if js_lt a b then b else a)"

fun js_abs :: "jsnum \<Rightarrow> jsnum" where
  "js_abs NaN = NaN"
| "js_abs NegInf = PosInf"
| "js_abs (Num x) = Num \<bar>x\<bar>"
| "js_abs PosInf = PosInf"

text \<open>A number is falsy when it is zero or \<open>NaN\<close>; \<open>a || d\<close> is \<open>d\<close> for a falsy \<open>a\<close>.\<close>

definition js_truthy :: "jsnum \<Rightarrow> bool" where
  "js_truthy a = (a \<noteq> NaN \<and> a \<noteq> Num 0)"

definition js_or :: "jsnum \<Rightarrow> jsnum \<Rightarrow> jsnum" where
  "js_or a d = (if js_truthy a then a else d)"

section \<open>Values carried by the events\<close>

text \<open>
  The \<open>time\<close> of a packet is a number; it is \<open>undefined\<close> when the field is
  missing, and \<open>null\<close> when a serialised trace is replayed whose time was not finite
  (\<open>JSON.stringify\<close> writes \<open>null\<close> for \<open>NaN\<close> and the infinities). The fields
  the program only stores and copies (source locations, parameter names, call sites,
  arguments, returned, thrown and yielded values) are values of an arbitrary type \<open>'v\<close>
  of JSON data, \<open>None\<close> standing for \<open>undefined\<close>. A function name is a string or
  \<open>undefined\<close>.
\<close>

datatype jsval = Undefined | Null | Number jsnum

fun toNumber :: "jsval \<Rightarrow> jsnum" where
  "toNumber Undefined = NaN"
| "toNumber Null = Num 0"
| "toNumber (Number a) = a"

text \<open>\<open>typeof x === "number"\<close> and \<open>!x\<close>.\<close>

fun is_number :: "jsval \<Rightarrow> bool" where
  "is_number (Number a) = True"
| "is_number x = False"

fun falsy :: "jsval \<Rightarrow> bool" where
  "falsy (Number a) = (\<not> js_truthy a)"
| "falsy x = True"

text \<open>A numeric property that may be absent, read as an operand of \<open>+\<close> or \<open>-\<close>.\<close>

definition num_of :: "jsnum option \<Rightarrow> jsnum" where
  "num_of x = (case x of None \<Rightarrow> NaN | Some a \<Rightarrow> a)"

record 'v enter_packet =
  p_name :: "string option"
  p_location :: "'v option"
  p_parameterNames :: "'v option"
  p_callsite :: "'v option"
  p_arguments :: "'v option"
  p_time :: jsval

record 'v exit_packet =
  q_time :: jsval
  q_return :: "'v option"
  q_throw :: "'v option"
  q_yield :: "'v option"

datatype 'v event = EnteredFrame "'v enter_packet" | ExitedFrame "'v exit_packet"

section \<open>The trace (trace.js)\<close>

text \<open>
  Frames are objects that the program shares between the flat list \<open>frames\<close>, the
  \<open>children\<close> list of their parent and the call stack, and mutates in place. The flat
  list is the store of the model: a reference to a frame is its index in \<open>frames\<close>
  (a frame is pushed there when it is created, and the list only grows), and \<open>frames[i]\<close>
  is updated where the program mutates the object. The bottom of the call stack is the
  trace object itself, the sentinel. A frame's reference \<open>aggregated\<close> to its function's
  record is the index of that record in \<open>functions\<close>.

  Field names carry a prefix, since several objects have fields of the same name:
  \<open>f_\<close> a frame, \<open>a_\<close> an aggregated function record, \<open>t_\<close> the trace,
  \<open>p_\<close> and \<open>q_\<close> the packets of the two events.
\<close>

datatype ref = Sentinel | FrameRef nat

record 'v frame =
  f_uid :: nat
  f_depth :: int
  f_children :: "nat list"
  f_older :: "ref option"
  f_previous :: "nat option"
  f_next :: "nat option"
  f_fid :: "nat option"
  f_aggregated :: "nat option"
  f_name :: "string option"
  f_location :: "'v option"
  f_parameterNames :: "'v option"
  f_startTime :: jsval
  f_endTime :: jsval
  f_totalTime :: "jsnum option"
  f_selfTime :: "jsnum option"
  f_callsite :: "'v option"
  f_arguments :: "'v option"
  f_return :: "'v option"
  f_throw :: "'v option"
  f_yield :: "'v option"

record 'v aggregated =
  a_count :: nat
  a_name :: "string option"
  a_location :: "'v option"
  a_parameterNames :: "'v option"
  a_totalTime :: "jsnum option"
  a_selfTime :: "jsnum option"

text \<open>
  Modelled from the spec: the event source (the \<open>client\<close>, an event emitter whose code
  is not part of the sources). What the trace does with it is to attach its two handlers in
  the constructor and to detach them in \<open>finish\<close>, so the client is the list of event
  types for which a handler of this trace is attached.
\<close>

type_synonym client = "string list"

definition addListener :: "string \<Rightarrow> client \<Rightarrow> client" where
  "addListener ev c = c @ [ev]"

definition removeListener :: "string \<Rightarrow> client \<Rightarrow> client" where
  "removeListener ev c = removeAll ev c"

record 'v trace =
  t_name :: "string option"
  t_children :: "nat list"
  t_frames :: "'v frame list"
  t_functions :: "'v aggregated list"
  t_maxDepth :: int
  t_stack :: "ref list option"
  t_functionIds :: "(string \<times> nat) list option"
  t_startTime :: jsval
  t_endTime :: jsval
  t_finished :: bool
  t_client :: "client option"

text \<open>
  The only failure of the program is a \<open>TypeError\<close>, raised when a property of
  \<open>null\<close> or \<open>undefined\<close> is read. A failing call returns the error together with
  the trace as the statements before the failing one left it.
\<close>

datatype error = TypeError

type_synonym 'v result = "(error \<times> 'v trace) + 'v trace"

text \<open>\<open>new Trace(client, name)\<close>; \<open>parseTrace\<close> calls it with no argument.\<close>

definition Trace :: "client option \<Rightarrow> string option \<Rightarrow> 'v trace" where
  "Trace client name =
     \<lparr>t_name = name, t_children = [], t_frames = [], t_functions = [], t_maxDepth = 0,
      t_stack = Some [Sentinel], t_functionIds = Some [],
      t_startTime = Undefined, t_endTime = Undefined, t_finished = False,
      t_client = map_option (\<lambda>c. addListener ''exitedFrame'' (addListener ''enteredFrame'' c))
                   client\<rparr>"

definition currentFrame :: "ref list \<Rightarrow> ref option" where
  "currentFrame st = (if st = [] then None else Some (last st))"

definition totalTime :: "'v trace \<Rightarrow> jsval" where
  "totalTime t = t_endTime t"

definition finish :: "'v trace \<Rightarrow> 'v result" where
  "finish t =
     (case t_client t of
        None \<Rightarrow> Inl (TypeError, t)
      | Some c \<Rightarrow>
          Inr (t\<lparr>t_client := Some (removeListener ''exitedFrame''
                                     (removeListener ''enteredFrame'' c)),
                 t_stack := None, t_functionIds := None, t_finished := True\<rparr>))"

definition frameByUid :: "'v trace \<Rightarrow> nat \<Rightarrow> 'v frame option" where
  "frameByUid t u = (if u < length (t_frames t) then Some (t_frames t ! u) else None)"

text \<open>\<open>locationToString(loc, name)\<close>, for a given \<open>JSON.stringify\<close> on locations.\<close>

definition locationToString :: "('v \<Rightarrow> string) \<Rightarrow> 'v option \<Rightarrow> string option \<Rightarrow> string" where
  "locationToString stringify loc name =
     (case name of None \<Rightarrow> [] | Some n \<Rightarrow> n)
     @ (case loc of None \<Rightarrow> ''undefined'' | Some l \<Rightarrow> stringify l)"

text \<open>Reading and mutating the objects behind references.\<close>

definition children_of :: "'v trace \<Rightarrow> ref \<Rightarrow> nat list" where
  "children_of t r =
     (case r of Sentinel \<Rightarrow> t_children t | FrameRef i \<Rightarrow> f_children (t_frames t ! i))"

definition modify_frame :: "nat \<Rightarrow> ('v frame \<Rightarrow> 'v frame) \<Rightarrow> 'v trace \<Rightarrow> 'v trace" where
  "modify_frame i g t = t\<lparr>t_frames := (t_frames t)[i := g (t_frames t ! i)]\<rparr>"

definition modify_function ::
  "nat \<Rightarrow> ('v aggregated \<Rightarrow> 'v aggregated) \<Rightarrow> 'v trace \<Rightarrow> 'v trace" where
  "modify_function i g t = t\<lparr>t_functions := (t_functions t)[i := g (t_functions t ! i)]\<rparr>"

definition push_child :: "ref \<Rightarrow> nat \<Rightarrow> 'v trace \<Rightarrow> 'v trace" where
  "push_child r n t =
     (case r of
        Sentinel \<Rightarrow> t\<lparr>t_children := t_children t @ [n]\<rparr>
      | FrameRef i \<Rightarrow> modify_frame i (\<lambda>f. f\<lparr>f_children := f_children f @ [n]\<rparr>) t)"

definition new_frame :: "nat \<Rightarrow> int \<Rightarrow> 'v frame" where
  "new_frame u d =
     \<lparr>f_uid = u, f_depth = d, f_children = [], f_older = None, f_previous = None,
      f_next = None, f_fid = None, f_aggregated = None, f_name = None, f_location = None,
      f_parameterNames = None, f_startTime = Undefined, f_endTime = Undefined,
      f_totalTime = None, f_selfTime = None, f_callsite = None, f_arguments = None,
      f_return = None, f_throw = None, f_yield = None\<rparr>"

subsection \<open>onEnteredFrame\<close>

text \<open>
  "Add references to parent and siblings": the frame object under construction and the
  trace, in which the previous sibling got its \<open>next\<close> link.
\<close>

definition link_frame :: "'v trace \<Rightarrow> ref option \<Rightarrow> 'v frame \<Rightarrow> 'v frame \<times> 'v trace" where
  "link_frame t current frame =
     (case current of
        None \<Rightarrow> (frame, t)
      | Some cur \<Rightarrow>
          (let frame = frame\<lparr>f_older := Some cur\<rparr>;
               cs = children_of t cur
           in if cs \<noteq> []
              then (frame\<lparr>f_previous := Some (last cs)\<rparr>,
                    modify_frame (last cs) (\<lambda>p. p\<lparr>f_next := Some (f_uid frame)\<rparr>) t)
              else (frame, t)))"

text \<open>
  "Add reference to aggregated info, creating it if necessary", for the frame at index
  \<open>n\<close>.
\<close>

definition enter_function ::
  "('v \<Rightarrow> string) \<Rightarrow> 'v enter_packet \<Rightarrow> nat \<Rightarrow> 'v trace \<Rightarrow> 'v result" where
  "enter_function stringify packet n t =
     (case t_functionIds t of
        None \<Rightarrow> Inl (TypeError, t)
      | Some ids \<Rightarrow>
          (let key = locationToString stringify (p_location packet) (p_name packet);
               t = (if map_of ids key = None
                    then t\<lparr>t_functionIds := Some (AList.update key (length (t_functions t)) ids),
                           t_functions := t_functions t @
                             [\<lparr>a_count = 0, a_name = p_name packet,
                               a_location = p_location packet,
                               a_parameterNames = p_parameterNames packet,
                               a_totalTime = None, a_selfTime = None\<rparr>]\<rparr>
                    else t);
               fid = (case t_functionIds t of None \<Rightarrow> None | Some ids \<Rightarrow> map_of ids key);
               t = modify_frame n (\<lambda>f. f\<lparr>f_fid := fid\<rparr>) t
           in case fid of
                None \<Rightarrow> Inl (TypeError, t)
              | Some i \<Rightarrow>
                  if length (t_functions t) \<le> i then Inl (TypeError, t)
                  else (let t = modify_function i (\<lambda>a. a\<lparr>a_count := a_count a + 1\<rparr>) t;
                            aggregated = t_functions t ! i
                        in Inr (modify_frame n
                                  (\<lambda>f. f\<lparr>f_aggregated := Some i,
                                          f_name := a_name aggregated,
                                          f_location := a_location aggregated,
                                          f_parameterNames := a_parameterNames aggregated\<rparr>)
                                  t))))"

text \<open>"Add frame start time and update trace timing" and "Add remaining properties".\<close>

definition enter_timing :: "'v enter_packet \<Rightarrow> nat \<Rightarrow> 'v trace \<Rightarrow> 'v trace" where
  "enter_timing packet n t =
     (let t = modify_frame n (\<lambda>f. f\<lparr>f_startTime := p_time packet\<rparr>) t;
          t = (if \<not> is_number (t_startTime t)
               then t\<lparr>t_startTime := f_startTime (t_frames t ! n)\<rparr> else t);
          t = t\<lparr>t_endTime := f_startTime (t_frames t ! n)\<rparr>
      in modify_frame n (\<lambda>f. f\<lparr>f_callsite := p_callsite packet,
                                f_arguments := p_arguments packet\<rparr>) t)"

definition onEnteredFrame :: "('v \<Rightarrow> string) \<Rightarrow> 'v trace \<Rightarrow> 'v enter_packet \<Rightarrow> 'v result" where
  "onEnteredFrame stringify t packet =
     (case t_stack t of
        None \<Rightarrow> Inl (TypeError, t)
      | Some st \<Rightarrow>
          (let current = currentFrame st;
               n = length (t_frames t);
               (frame, t) = link_frame t current (new_frame n (int (length st) - 1));
               t = t\<lparr>t_frames := t_frames t @ [frame]\<rparr>
           in case current of
                None \<Rightarrow> Inl (TypeError, t)
              | Some cur \<Rightarrow>
                  (let t = push_child cur n t;
                       t = t\<lparr>t_stack := Some (st @ [FrameRef n])\<rparr>;
                       t = (if t_maxDepth t < f_depth frame
                            then t\<lparr>t_maxDepth := f_depth frame\<rparr> else t)
                   in case enter_function stringify packet n t of
                        Inl e \<Rightarrow> Inl e
                      | Inr t \<Rightarrow> Inr (enter_timing packet n t))))"

subsection \<open>onExitedFrame\<close>

text \<open>The normal exit of the frame at index \<open>i\<close>, after it was popped.\<close>

definition exit_frame :: "nat \<Rightarrow> 'v exit_packet \<Rightarrow> 'v trace \<Rightarrow> 'v result" where
  "exit_frame i packet t =
     (let t = modify_frame i (\<lambda>f. f\<lparr>f_endTime := q_time packet\<rparr>) t;
          t = modify_frame i
                (\<lambda>f. f\<lparr>f_totalTime := Some (js_sub (toNumber (f_endTime f))
                                                     (toNumber (f_startTime f)))\<rparr>) t;
          selfTime = foldl (\<lambda>s c. js_sub s (num_of (f_totalTime (t_frames t ! c))))
                       (num_of (f_totalTime (t_frames t ! i)))
                       (f_children (t_frames t ! i));
          t = modify_frame i (\<lambda>f. f\<lparr>f_selfTime := Some selfTime\<rparr>) t;
          frame = t_frames t ! i
      in case f_aggregated frame of
           None \<Rightarrow> Inl (TypeError, t)
         | Some k \<Rightarrow>
             (let t = (if a_totalTime (t_functions t ! k) = None
                       then modify_function k
                              (\<lambda>a. a\<lparr>a_totalTime := Some (Num 0), a_selfTime := Some (Num 0)\<rparr>) t
                       else t);
                  t = modify_function k
                        (\<lambda>a. a\<lparr>a_totalTime := Some (js_add (num_of (a_totalTime a))
                                                          (num_of (f_totalTime frame)))\<rparr>) t;
                  t = modify_function k
                        (\<lambda>a. a\<lparr>a_selfTime := Some (js_add (num_of (a_selfTime a))
                                                         (num_of (f_selfTime frame)))\<rparr>) t;
                  t = (if falsy (t_endTime t)
                          \<or> js_gt (toNumber (f_endTime frame)) (toNumber (t_endTime t))
                       then t\<lparr>t_endTime := f_endTime frame\<rparr> else t);
                  t = (if q_return packet \<noteq> None
                       then modify_frame i (\<lambda>f. f\<lparr>f_return := q_return packet\<rparr>) t else t);
                  t = (if q_throw packet \<noteq> None
                       then modify_frame i (\<lambda>f. f\<lparr>f_throw := q_throw packet\<rparr>) t else t);
                  t = (if q_yield packet \<noteq> None
                       then modify_frame i (\<lambda>f. f\<lparr>f_yield := q_yield packet\<rparr>) t else t)
              in Inr t))"

definition onExitedFrame :: "'v trace \<Rightarrow> 'v exit_packet \<Rightarrow> 'v result" where
  "onExitedFrame t packet =
     (case t_stack t of
        None \<Rightarrow> Inl (TypeError, t)
      | Some st \<Rightarrow>
          (case currentFrame st of
             None \<Rightarrow> Inl (TypeError, t)
           | Some Sentinel \<Rightarrow> finish t
           | Some (FrameRef i) \<Rightarrow> exit_frame i packet (t\<lparr>t_stack := Some (butlast st)\<rparr>)))"

subsection \<open>The handlers on whatever the source passes\<close>

text \<open>
  The event source calls the handlers with the packet it has. The definitions above take a
  packet that is an object whose location \<open>JSON.stringify\<close> accepts. The two below
  cover in addition a packet that is missing (\<open>undefined\<close> or \<open>null\<close>) and a
  location that \<open>JSON.stringify\<close> rejects (a cyclic object, a \<open>BigInt\<close>): both
  raise a \<open>TypeError\<close> where the code first touches them, \<open>packet.location\<close> in
  \<open>onEnteredFrame\<close>, after the frame was pushed to \<open>frames\<close>, to the children of
  its parent and to the stack (\<open>push_entered\<close> is that first part of the handler), and
  \<open>packet.time\<close> in \<open>onExitedFrame\<close>, after the stack was popped. On a packet whose
  location is accepted they are the handlers above.
\<close>

definition push_entered :: "'v trace \<Rightarrow> 'v result" where
  "push_entered t =
     (case t_stack t of
        None \<Rightarrow> Inl (TypeError, t)
      | Some st \<Rightarrow>
          (let current = currentFrame st;
               n = length (t_frames t);
               (frame, t) = link_frame t current (new_frame n (int (length st) - 1));
               t = t\<lparr>t_frames := t_frames t @ [frame]\<rparr>
           in case current of
                None \<Rightarrow> Inl (TypeError, t)
              | Some cur \<Rightarrow>
                  (let t = push_child cur n t;
                       t = t\<lparr>t_stack := Some (st @ [FrameRef n])\<rparr>;
                       t = (if t_maxDepth t < f_depth frame
                            then t\<lparr>t_maxDepth := f_depth frame\<rparr> else t)
                   in Inr t)))"

definition stringify_or_empty :: "('v \<Rightarrow> string option) \<Rightarrow> 'v \<Rightarrow> string" where
  "stringify_or_empty stringify l = (case stringify l of None \<Rightarrow> [] | Some s \<Rightarrow> s)"

definition onEnteredFrame_any ::
    "('v \<Rightarrow> string option) \<Rightarrow> 'v trace \<Rightarrow> 'v enter_packet option \<Rightarrow> 'v result" where
  "onEnteredFrame_any stringify t packet =
     (case push_entered t of
        Inl e \<Rightarrow> Inl e
      | Inr t1 \<Rightarrow>
          (case packet of
             None \<Rightarrow> Inl (TypeError, t1)
           | Some p \<Rightarrow>
               if (case p_location p of None \<Rightarrow> False | Some l \<Rightarrow> stringify l = None)
               then Inl (TypeError, t1)
               else (case enter_function (stringify_or_empty stringify) p (length (t_frames t)) t1 of
                       Inl e \<Rightarrow> Inl e
                     | Inr t2 \<Rightarrow> Inr (enter_timing p (length (t_frames t)) t2))))"

definition onExitedFrame_any :: "'v trace \<Rightarrow> 'v exit_packet option \<Rightarrow> 'v result" where
  "onExitedFrame_any t packet =
     (case t_stack t of
        None \<Rightarrow> Inl (TypeError, t)
      | Some st \<Rightarrow>
          (case currentFrame st of
             None \<Rightarrow> Inl (TypeError, t)
           | Some Sentinel \<Rightarrow> finish t
           | Some (FrameRef i) \<Rightarrow>
               (case packet of
                  None \<Rightarrow> Inl (TypeError, t\<lparr>t_stack := Some (butlast st)\<rparr>)
                | Some q \<Rightarrow> exit_frame i q (t\<lparr>t_stack := Some (butlast st)\<rparr>))))"

lemma onEnteredFrame_push:
  "onEnteredFrame str t p =
     (case push_entered t of
        Inl e \<Rightarrow> Inl e
      | Inr t1 \<Rightarrow>
          (case enter_function str p (length (t_frames t)) t1 of
             Inl e \<Rightarrow> Inl e
           | Inr t2 \<Rightarrow> Inr (enter_timing p (length (t_frames t)) t2)))"
  by (simp add: onEnteredFrame_def push_entered_def Let_def split: option.splits prod.splits)

lemma stringify_or_empty_Some [simp]: "stringify_or_empty (\<lambda>l. Some (str l)) = str"
  by (rule ext) (simp add: stringify_or_empty_def)

lemma onEnteredFrame_any_packet:
  "onEnteredFrame_any (\<lambda>l. Some (str l)) t (Some p) = onEnteredFrame str t p"
  by (simp add: onEnteredFrame_any_def onEnteredFrame_push split: option.splits sum.splits)

lemma onExitedFrame_any_packet:
  "onExitedFrame_any t (Some q) = onExitedFrame t q"
  by (simp add: onExitedFrame_any_def onExitedFrame_def split: option.splits ref.splits)

subsection \<open>Ingestion of a sequence of events\<close>

fun step :: "('v \<Rightarrow> string) \<Rightarrow> 'v trace \<Rightarrow> 'v event \<Rightarrow> 'v result" where
  "step stringify t (EnteredFrame packet) = onEnteredFrame stringify t packet"
| "step stringify t (ExitedFrame packet) = onExitedFrame t packet"

text \<open>The events are handled one after the other; the first failure ends the run.\<close>

fun run :: "('v \<Rightarrow> string) \<Rightarrow> 'v event list \<Rightarrow> 'v trace \<Rightarrow> 'v result" where
  "run stringify [] t = Inr t"
| "run stringify (e # es) t =
     (case step stringify t e of Inl err \<Rightarrow> Inl err | Inr t' \<Rightarrow> run stringify es t')"

section \<open>The viewport: TraceBounds (trace-graph.js)\<close>

text \<open>
  A \<open>TraceBounds\<close> object holds \<open>_left\<close>, \<open>_right\<close> and \<open>_totalTime\<close>. The
  total time is only ever used as an operand of \<open>*\<close> and \<open>/\<close>, so a missing one
  (\<open>undefined\<close>) is the number \<open>NaN\<close>. The \<open>changed\<close> signal that
  \<open>setBounds\<close> emits to its observers and the reason tag it carries are outside the
  object's state and are not modelled.

  The viewport multiplies and divides, and its results are fractions that doubles do not
  hold exactly: every arithmetic operation of this section rounds its result. The rounding
  of the language (IEEE 754 binary64, to nearest) is a parameter \<open>rd\<close> of the
  functions: the result of an operation on finite numbers is \<open>rd\<close> of the exact result,
  a number or an infinity.
\<close>

definition rnd :: "(real \<Rightarrow> jsnum) \<Rightarrow> jsnum \<Rightarrow> jsnum" where
  "rnd rd a = (case a of Num x \<Rightarrow> rd x | _ \<Rightarrow> a)"

definition r_add :: "(real \<Rightarrow> jsnum) \<Rightarrow> jsnum \<Rightarrow> jsnum \<Rightarrow> jsnum" where
  "r_add rd a b = rnd rd (js_add a b)"

definition r_sub :: "(real \<Rightarrow> jsnum) \<Rightarrow> jsnum \<Rightarrow> jsnum \<Rightarrow> jsnum" where
  "r_sub rd a b = rnd rd (js_sub a b)"

definition r_mul :: "(real \<Rightarrow> jsnum) \<Rightarrow> jsnum \<Rightarrow> jsnum \<Rightarrow> jsnum" where
  "r_mul rd a b = rnd rd (js_mul a b)"

definition r_div :: "(real \<Rightarrow> jsnum) \<Rightarrow> jsnum \<Rightarrow> jsnum \<Rightarrow> jsnum" where
  "r_div rd a b = rnd rd (js_div a b)"

text \<open>
  What the properties below use of the rounding: up to 2048 in absolute value a result is
  finite and within half a unit in the last place of the exact one, which is at most
  \<open>|x| / 2^53\<close> for a normal double and \<open>2^-1075\<close> for a subnormal one. Rounding to
  nearest has this property; so has no rounding at all, \<open>Num\<close>.
\<close>

definition rounds :: "(real \<Rightarrow> jsnum) \<Rightarrow> bool" where
  "rounds rd =
     (\<forall>x. \<bar>x\<bar> \<le> 2048 \<longrightarrow> (\<exists>y. rd x = Num y \<and> \<bar>y - x\<bar> \<le> \<bar>x\<bar> / 2 ^ 53 + 1 / 2 ^ 1075))"

record bounds =
  b_left :: jsnum
  b_right :: jsnum
  b_totalTime :: jsnum

definition minimumIntervalTime :: jsnum where
  "minimumIntervalTime = Num 3"

definition minimumIntervalWidth :: "(real \<Rightarrow> jsnum) \<Rightarrow> bounds \<Rightarrow> jsnum" where
  "minimumIntervalWidth rd b = r_div rd minimumIntervalTime (b_totalTime b)"

definition intervalWidth :: "(real \<Rightarrow> jsnum) \<Rightarrow> bounds \<Rightarrow> jsnum" where
  "intervalWidth rd b = r_sub rd (b_right b) (b_left b)"

definition center :: "(real \<Rightarrow> jsnum) \<Rightarrow> bounds \<Rightarrow> jsnum" where
  "center rd b = r_add rd (b_left b) (r_div rd (intervalWidth rd b) (Num 2))"

definition setBounds :: "bounds \<Rightarrow> jsnum \<Rightarrow> jsnum \<Rightarrow> bounds" where
  "setBounds b left right =
     (let (left, right) = (if js_gt left right then (right, left) else (left, right))
      in b\<lparr>b_left := js_max (js_min (js_or left (Num 0)) (Num 1)) (Num 0),
            b_right := js_max (js_min (js_or right (Num 1)) (Num 1)) (Num 0)\<rparr>)"

definition set_center :: "(real \<Rightarrow> jsnum) \<Rightarrow> bounds \<Rightarrow> jsnum \<Rightarrow> bounds" where
  "set_center rd b percent =
     (let width = r_div rd (js_max (intervalWidth rd b) (minimumIntervalWidth rd b)) (Num 2);
          percent = (if js_lt percent width then width
                     else if js_gt percent (r_sub rd (Num 1) width) then r_sub rd (Num 1) width
                     else percent)
      in setBounds b (r_sub rd percent width) (r_add rd percent width))"

text \<open>\<open>zoom(value, centerPercent)\<close>; a missing \<open>centerPercent\<close> is \<open>None\<close>.\<close>

definition zoom :: "(real \<Rightarrow> jsnum) \<Rightarrow> bounds \<Rightarrow> jsnum \<Rightarrow> jsnum option \<Rightarrow> bounds" where
  "zoom rd b val centerPercent =
     (let zoom = r_div rd (r_mul rd (intervalWidth rd b) val) (Num 500);
          minWidth = minimumIntervalWidth rd b
      in if js_lt (r_add rd (intervalWidth rd b) (r_mul rd (Num 2) zoom)) minWidth
         then (let center = center rd b
               in setBounds b (r_sub rd center (r_div rd minWidth (Num 2)))
                              (r_add rd center (r_div rd minWidth (Num 2))))
         else (let centerPercent = (case centerPercent of None \<Rightarrow> Num (1/2) | Some c \<Rightarrow> c);
                   lZoom = r_mul rd zoom centerPercent;
                   rZoom = r_mul rd zoom (r_sub rd (Num 1) centerPercent)
               in setBounds b (r_sub rd (b_left b) lZoom) (r_add rd (b_right b) rZoom)))"

definition panByPercent :: "(real \<Rightarrow> jsnum) \<Rightarrow> bounds \<Rightarrow> jsnum \<Rightarrow> bounds" where
  "panByPercent rd b val =
     (let pan = r_mul rd (intervalWidth rd b) val;
          roomToPan = (if js_lt val (Num 0) then js_neg (b_left b)
                       else r_sub rd (Num 1) (b_right b));
          pan = (if js_gt (js_abs pan) (js_abs roomToPan) then roomToPan else pan)
      in setBounds b (r_add rd (b_left b) pan) (r_add rd (b_right b) pan))"

definition pan :: "(real \<Rightarrow> jsnum) \<Rightarrow> bounds \<Rightarrow> jsnum \<Rightarrow> bounds" where
  "pan rd b val = panByPercent rd b (r_div rd val (Num 1000))"

text \<open>The invariant of the viewport: both bounds are finite and \<open>0 \<le> left \<le> right \<le> 1\<close>.\<close>

definition bounds_ok :: "bounds \<Rightarrow> bool" where
  "bounds_ok b =
     (case (b_left b, b_right b) of
        (Num l, Num r) \<Rightarrow> 0 \<le> l \<and> l \<le> r \<and> r \<le> 1
      | _ \<Rightarrow> False)"

subsection \<open>Properties of the viewport\<close>

lemma setBounds_finite:
  "setBounds b (Num l) (Num r) =
     b\<lparr>b_left := Num (max 0 (min 1 (min l r))),
       b_right := Num (if max l r = 0 then 1 else max 0 (min 1 (max l r)))\<rparr>"
  by (auto simp: setBounds_def js_gt_def js_or_def js_truthy_def js_min_def js_max_def)

lemma setBounds_ok: "bounds_ok (setBounds b left right)"
  by (cases left; cases right)
     (auto simp: setBounds_def bounds_ok_def js_gt_def js_or_def js_truthy_def
        js_min_def js_max_def)

text \<open>
  C9, as the code has it. After \<open>setBounds\<close> with any two numbers (finite or not, in
  any order, zero included) the stored bounds are finite and satisfy
  \<open>0 \<le> left \<le> right \<le> 1\<close>, and so they do after \<open>zoom\<close>, \<open>pan\<close>,
  \<open>panByPercent\<close> and the \<open>center\<close> setter, whatever the state before, the
  arguments and the rounding. For finite arguments the stored values are the smaller and
  the larger argument clamped to \<open>[0, 1]\<close>, except that a larger argument equal to
  zero is replaced by 1 before clamping (\<open>right || 1\<close>).
\<close>

theorem setBounds_invariant:
  "bounds_ok (setBounds b left right)
   \<and> bounds_ok (zoom rd b v cp)
   \<and> bounds_ok (pan rd b v)
   \<and> bounds_ok (panByPercent rd b v)
   \<and> bounds_ok (set_center rd b percent)
   \<and> (\<forall>l r. setBounds b (Num l) (Num r) =
         b\<lparr>b_left := Num (max 0 (min 1 (min l r))),
           b_right := Num (if max l r = 0 then 1 else max 0 (min 1 (max l r)))\<rparr>)"
  by (simp add: setBounds_ok setBounds_finite zoom_def pan_def panByPercent_def
      set_center_def Let_def)

text \<open>
  Counterexample to C9 as stated: the arguments are not always clamped. In
  \<open>setBounds(0, 0)\<close> the upper argument 0 is falsy, \<open>right || 1\<close> replaces it by 1,
  and the stored window is \<open>[0, 1]\<close>, where clamping 0 to \<open>[0, 1]\<close> gives 0.
\<close>

theorem setBounds_counterexample:
  "b_left (setBounds \<lparr>b_left = Num 0, b_right = Num 1, b_totalTime = Num 10\<rparr> (Num 0) (Num 0))
     = Num 0
   \<and> b_right (setBounds \<lparr>b_left = Num 0, b_right = Num 1, b_totalTime = Num 10\<rparr> (Num 0) (Num 0))
     = Num 1
   \<and> js_max (js_min (Num 0) (Num 1)) (Num 0) = Num 0"
  by (simp add: setBounds_def js_gt_def js_or_def js_truthy_def js_min_def js_max_def)

subsection \<open>The floor of zoom\<close>


lemma rounds_Num: "rounds Num"
  by (simp add: rounds_def)
































section \<open>The effect of a handled event\<close>

text \<open>
  When nothing fails, each handler amounts to one update of the trace. The definitions below
  write that update out, and the two lemmas after them show that the handlers compute it:
  \<open>onEnteredFrame\<close> on a live trace whose stack is not empty, and \<open>exit_frame\<close> for a
  frame that has its reference to an aggregated record.
\<close>

definition entered_frames :: "'v trace \<Rightarrow> ref \<Rightarrow> 'v frame list" where
  "entered_frames t cur =
     (let n = length (t_frames t); cs = children_of t cur;
          frames1 = (if cs = [] then t_frames t
                     else (t_frames t)[last cs := (t_frames t ! last cs)\<lparr>f_next := Some n\<rparr>])
      in case cur of Sentinel \<Rightarrow> frames1
         | FrameRef i \<Rightarrow> frames1[i := (frames1 ! i)\<lparr>f_children := f_children (frames1 ! i) @ [n]\<rparr>])"

definition entered_fid :: "('v \<Rightarrow> string) \<Rightarrow> 'v trace \<Rightarrow> 'v enter_packet \<Rightarrow> nat" where
  "entered_fid str t p =
     (case map_of (the (t_functionIds t)) (locationToString str (p_location p) (p_name p)) of
        None \<Rightarrow> length (t_functions t) | Some i \<Rightarrow> i)"

definition entered_functions :: "('v \<Rightarrow> string) \<Rightarrow> 'v trace \<Rightarrow> 'v enter_packet \<Rightarrow> 'v aggregated list" where
  "entered_functions str t p =
     (let key = locationToString str (p_location p) (p_name p);
          fns = (if map_of (the (t_functionIds t)) key = None
                 then t_functions t @ [\<lparr>a_count = 0, a_name = p_name p, a_location = p_location p,
                        a_parameterNames = p_parameterNames p, a_totalTime = None, a_selfTime = None\<rparr>]
                 else t_functions t);
          fid = entered_fid str t p
      in fns[fid := (fns ! fid)\<lparr>a_count := a_count (fns ! fid) + 1\<rparr>])"

definition entered_ids :: "('v \<Rightarrow> string) \<Rightarrow> 'v trace \<Rightarrow> 'v enter_packet \<Rightarrow> (string \<times> nat) list" where
  "entered_ids str t p =
     (let key = locationToString str (p_location p) (p_name p); ids = the (t_functionIds t)
      in if map_of ids key = None then AList.update key (length (t_functions t)) ids else ids)"

definition entered_frame :: "('v \<Rightarrow> string) \<Rightarrow> 'v trace \<Rightarrow> ref \<Rightarrow> 'v enter_packet \<Rightarrow> 'v frame" where
  "entered_frame str t cur p =
     (let cs = children_of t cur; fid = entered_fid str t p; agg = entered_functions str t p ! fid
      in \<lparr>f_uid = length (t_frames t), f_depth = int (length (the (t_stack t))) - 1, f_children = [],
          f_older = Some cur, f_previous = (if cs = [] then None else Some (last cs)),
          f_next = None, f_fid = Some fid, f_aggregated = Some fid, f_name = a_name agg,
          f_location = a_location agg, f_parameterNames = a_parameterNames agg,
          f_startTime = p_time p, f_endTime = Undefined,
          f_totalTime = None, f_selfTime = None, f_callsite = p_callsite p, f_arguments = p_arguments p,
          f_return = None, f_throw = None, f_yield = None\<rparr>)"

definition entered :: "('v \<Rightarrow> string) \<Rightarrow> 'v trace \<Rightarrow> 'v enter_packet \<Rightarrow> 'v trace" where
  "entered str t p =
     (let st = the (t_stack t); cur = last st; n = length (t_frames t)
      in t\<lparr>t_frames := entered_frames t cur @ [entered_frame str t cur p],
            t_children := (if cur = Sentinel then t_children t @ [n] else t_children t),
            t_stack := Some (st @ [FrameRef n]),
            t_maxDepth := (if t_maxDepth t < int (length st) - 1 then int (length st) - 1
                           else t_maxDepth t),
            t_functionIds := Some (entered_ids str t p),
            t_functions := entered_functions str t p,
            t_startTime := (if \<not> is_number (t_startTime t) then p_time p else t_startTime t),
            t_endTime := p_time p\<rparr>)"

definition ids_ok :: "'v trace \<Rightarrow> bool" where
  "ids_ok t = (case t_functionIds t of None \<Rightarrow> False
     | Some ids \<Rightarrow> \<forall>k i. map_of ids k = Some i \<longrightarrow> i < length (t_functions t))"

definition ref_ok :: "'v trace \<Rightarrow> ref \<Rightarrow> bool" where
  "ref_ok t r = (case r of Sentinel \<Rightarrow> True | FrameRef i \<Rightarrow> i < length (t_frames t))"

lemma list_update_snoc_eq: "length ys = n \<Longrightarrow> (ys @ [f])[n := g] = ys @ [g]"
  by auto

lemma nth_snoc_eq: "length ys = n \<Longrightarrow> (ys @ [f]) ! n = f"
  by auto

lemma length_entered_frames [simp]: "length (entered_frames t cur) = length (t_frames t)"
  by (simp add: entered_frames_def Let_def split: ref.splits)


lemma enter_function_ok:
  assumes ids: "t_functionIds t = Some ids"
      and rng: "\<And>k i. map_of ids k = Some i \<Longrightarrow> i < length (t_functions t)"
      and n: "n < length (t_frames t)"
  shows "enter_function str p n t =
     Inr (t\<lparr>t_functionIds := Some (entered_ids str t p),
            t_functions := entered_functions str t p,
            t_frames := (t_frames t)[n := (t_frames t ! n)\<lparr>f_fid := Some (entered_fid str t p),
               f_aggregated := Some (entered_fid str t p),
               f_name := a_name (entered_functions str t p ! entered_fid str t p),
               f_location := a_location (entered_functions str t p ! entered_fid str t p),
               f_parameterNames := a_parameterNames (entered_functions str t p ! entered_fid str t p)\<rparr>]\<rparr>)"
proof (cases "map_of ids (locationToString str (p_location p) (p_name p))")
  case None
  then show ?thesis using ids n
    by (simp add: enter_function_def Let_def modify_frame_def modify_function_def update_conv'
        entered_ids_def entered_functions_def entered_fid_def)
next
  case (Some i)
  then show ?thesis using ids n rng[OF Some]
    by (simp add: enter_function_def Let_def modify_frame_def modify_function_def
        entered_ids_def entered_functions_def entered_fid_def)
qed


lemma onEnteredFrame_entered:
  assumes st: "t_stack t = Some st" "st \<noteq> []" and ok: "ids_ok t" and r: "ref_ok t (last st)"
  shows "onEnteredFrame str t p = Inr (entered str t p)"
proof -
  obtain ids where ids: "t_functionIds t = Some ids"
      and rng: "\<And>k i. map_of ids k = Some i \<Longrightarrow> i < length (t_functions t)"
    using ok by (auto simp: ids_ok_def split: option.splits)
  define n where "n = length (t_frames t)"
  define cur where "cur = last st"
  define cs where "cs = children_of t cur"
  obtain frame t1 where l: "link_frame t (Some cur) (new_frame n (int (length st) - 1)) = (frame, t1)"
    by (cases "link_frame t (Some cur) (new_frame n (int (length st) - 1))")
  have t1: "t1 = (if cs = [] then t else modify_frame (last cs) (\<lambda>p. p\<lparr>f_next := Some n\<rparr>) t)"
    and fr: "frame = (new_frame n (int (length st) - 1))\<lparr>f_older := Some cur,
               f_previous := (if cs = [] then None else Some (last cs))\<rparr>"
    using l by (auto simp: link_frame_def Let_def cs_def new_frame_def split: if_splits)
  define t2 where "t2 = push_child cur n (t1\<lparr>t_frames := t_frames t1 @ [frame]\<rparr>)"
  define t3 where "t3 = (let t = t2\<lparr>t_stack := Some (st @ [FrameRef n])\<rparr>
                         in if t_maxDepth t < f_depth frame then t\<lparr>t_maxDepth := f_depth frame\<rparr> else t)"
  have len1: "length (t_frames t1) = n" by (simp add: t1 n_def modify_frame_def)
  have len3: "length (t_frames t3) = Suc n"
    by (cases cur) (simp_all add: t3_def t2_def push_child_def modify_frame_def len1 Let_def)
  have f3: "t_functions t3 = t_functions t" "t_functionIds t3 = Some ids"
    using ids by (cases cur; simp add: t3_def t2_def t1 push_child_def modify_frame_def Let_def)+
  have unfold: "onEnteredFrame str t p =
      (case enter_function str p n t3 of Inl e \<Rightarrow> Inl e | Inr t \<Rightarrow> Inr (enter_timing p n t))"
    using st l by (simp add: onEnteredFrame_def currentFrame_def Let_def n_def[symmetric]
        cur_def[symmetric] t2_def t3_def)
  have ef: "enter_function str p n t3 = Inr (t3\<lparr>t_functionIds := Some (entered_ids str t3 p),
            t_functions := entered_functions str t3 p,
            t_frames := (t_frames t3)[n := (t_frames t3 ! n)\<lparr>f_fid := Some (entered_fid str t3 p),
               f_aggregated := Some (entered_fid str t3 p),
               f_name := a_name (entered_functions str t3 p ! entered_fid str t3 p),
               f_location := a_location (entered_functions str t3 p ! entered_fid str t3 p),
               f_parameterNames := a_parameterNames (entered_functions str t3 p ! entered_fid str t3 p)\<rparr>]\<rparr>)"
    by (rule enter_function_ok[where ids = ids]) (use f3 rng len3 in auto)
  have e3: "entered_ids str t3 p = entered_ids str t p"
       "entered_functions str t3 p = entered_functions str t p"
       "entered_fid str t3 p = entered_fid str t p"
    using f3 ids by (simp_all add: entered_ids_def entered_functions_def entered_fid_def Let_def
        split: option.splits)
  have fr3: "t_frames t3 = entered_frames t cur @ [frame]"
  proof (cases cur)
    case Sentinel
    then show ?thesis
      by (simp add: t3_def t2_def t1 push_child_def modify_frame_def Let_def entered_frames_def
          cs_def n_def[symmetric])
  next
    case (FrameRef i)
    then have "i < n" using r by (simp add: ref_ok_def cur_def n_def)
    then show ?thesis using FrameRef
      by (simp add: t3_def t2_def t1 push_child_def modify_frame_def Let_def entered_frames_def
          cs_def n_def[symmetric] list_update_append1 nth_append)
  qed
  have rest3: "t_children t3 = (if cur = Sentinel then t_children t @ [n] else t_children t)"
      "t_stack t3 = Some (st @ [FrameRef n])"
      "t_maxDepth t3 = (if t_maxDepth t < int (length st) - 1 then int (length st) - 1 else t_maxDepth t)"
      "t_startTime t3 = t_startTime t" "t_endTime t3 = t_endTime t" "t_name t3 = t_name t"
      "t_finished t3 = t_finished t" "t_client t3 = t_client t"
    by (cases cur; simp add: t3_def t2_def t1 fr push_child_def modify_frame_def Let_def new_frame_def)+
  have "enter_timing p n (t3\<lparr>t_functionIds := Some (entered_ids str t p),
            t_functions := entered_functions str t p,
            t_frames := (t_frames t3)[n := (t_frames t3 ! n)\<lparr>f_fid := Some (entered_fid str t p),
               f_aggregated := Some (entered_fid str t p),
               f_name := a_name (entered_functions str t p ! entered_fid str t p),
               f_location := a_location (entered_functions str t p ! entered_fid str t p),
               f_parameterNames := a_parameterNames (entered_functions str t p ! entered_fid str t p)\<rparr>]\<rparr>)
        = entered str t p"
    apply (rule trace.equality)
    apply (simp_all add: enter_timing_def Let_def modify_frame_def rest3 fr3 entered_def st
        cur_def[symmetric] n_def[symmetric] list_update_snoc_eq nth_snoc_eq entered_frame_def fr
        new_frame_def cs_def[symmetric])
    done
  then show ?thesis
    unfolding unfold ef e3 by simp
qed


definition exited_totalTime :: "'v trace \<Rightarrow> nat \<Rightarrow> 'v exit_packet \<Rightarrow> jsnum" where
  "exited_totalTime t i q = js_sub (toNumber (q_time q)) (toNumber (f_startTime (t_frames t ! i)))"

definition exited_selfTime :: "'v trace \<Rightarrow> nat \<Rightarrow> 'v exit_packet \<Rightarrow> jsnum" where
  "exited_selfTime t i q =
     foldl (\<lambda>s c. js_sub s (num_of (f_totalTime
               ((t_frames t)[i := (t_frames t ! i)\<lparr>f_totalTime := Some (exited_totalTime t i q)\<rparr>] ! c))))
       (exited_totalTime t i q) (f_children (t_frames t ! i))"

definition exited_frame :: "'v trace \<Rightarrow> nat \<Rightarrow> 'v exit_packet \<Rightarrow> 'v frame" where
  "exited_frame t i q =
     (t_frames t ! i)\<lparr>f_endTime := q_time q,
        f_totalTime := Some (exited_totalTime t i q),
        f_selfTime := Some (exited_selfTime t i q),
        f_return := (if q_return q \<noteq> None then q_return q else f_return (t_frames t ! i)),
        f_throw := (if q_throw q \<noteq> None then q_throw q else f_throw (t_frames t ! i)),
        f_yield := (if q_yield q \<noteq> None then q_yield q else f_yield (t_frames t ! i))\<rparr>"

definition exited_aggregated :: "'v trace \<Rightarrow> nat \<Rightarrow> 'v exit_packet \<Rightarrow> 'v aggregated \<Rightarrow> 'v aggregated" where
  "exited_aggregated t i q a =
     a\<lparr>a_totalTime := Some (js_add (if a_totalTime a = None then Num 0 else num_of (a_totalTime a))
                                    (exited_totalTime t i q)),
       a_selfTime := Some (js_add (if a_totalTime a = None then Num 0 else num_of (a_selfTime a))
                                   (exited_selfTime t i q))\<rparr>"

definition exited :: "'v trace \<Rightarrow> nat \<Rightarrow> nat \<Rightarrow> 'v exit_packet \<Rightarrow> 'v trace" where
  "exited t i k q =
     t\<lparr>t_stack := Some (butlast (the (t_stack t))),
       t_frames := (t_frames t)[i := exited_frame t i q],
       t_functions := (t_functions t)[k := exited_aggregated t i q (t_functions t ! k)],
       t_endTime := (if falsy (t_endTime t) \<or> js_gt (toNumber (q_time q)) (toNumber (t_endTime t))
                     then q_time q else t_endTime t)\<rparr>"

lemma exit_frame_exited:
  assumes i: "i < length (t_frames t)" and k: "f_aggregated (t_frames t ! i) = Some k"
      and kl: "k < length (t_functions t)" and st: "t_stack t = Some st"
  shows "exit_frame i q (t\<lparr>t_stack := Some (butlast st)\<rparr>) = Inr (exited t i k q)"
proof -
  define t0 where "t0 = t\<lparr>t_stack := Some (butlast st)\<rparr>"
  define t1 where "t1 = modify_frame i (\<lambda>f. f\<lparr>f_totalTime := Some (js_sub (toNumber (f_endTime f))
                                                     (toNumber (f_startTime f)))\<rparr>)
                        (modify_frame i (\<lambda>f. f\<lparr>f_endTime := q_time q\<rparr>) t0)"
  have fr1: "t_frames t1 = (t_frames t)[i := (t_frames t ! i)\<lparr>f_endTime := q_time q,
                f_totalTime := Some (exited_totalTime t i q)\<rparr>]"
    using i by (simp add: t1_def t0_def modify_frame_def exited_totalTime_def)
  have self: "foldl (\<lambda>s c. js_sub s (num_of (f_totalTime (t_frames t1 ! c))))
                       (num_of (f_totalTime (t_frames t1 ! i)))
                       (f_children (t_frames t1 ! i)) = exited_selfTime t i q"
  proof -
    have "\<And>c. f_totalTime (t_frames t1 ! c) = f_totalTime
               ((t_frames t)[i := (t_frames t ! i)\<lparr>f_totalTime := Some (exited_totalTime t i q)\<rparr>] ! c)"
      using i by (simp add: fr1 nth_list_update)
    then show ?thesis using i by (simp add: exited_selfTime_def fr1 num_of_def)
  qed
  define t2 where "t2 = modify_frame i (\<lambda>f. f\<lparr>f_selfTime := Some (exited_selfTime t i q)\<rparr>) t1"
  have fr2: "t_frames t2 ! i = (t_frames t ! i)\<lparr>f_endTime := q_time q,
                f_totalTime := Some (exited_totalTime t i q), f_selfTime := Some (exited_selfTime t i q)\<rparr>"
    using i by (simp add: t2_def fr1 modify_frame_def)
  have rest2: "t_functions t2 = t_functions t" "t_endTime t2 = t_endTime t"
    by (simp_all add: t2_def t1_def t0_def modify_frame_def)
  have unfold: "exit_frame i q t0 = Inr (
      let t = (if a_totalTime (t_functions t2 ! k) = None
                       then modify_function k
                              (\<lambda>a. a\<lparr>a_totalTime := Some (Num 0), a_selfTime := Some (Num 0)\<rparr>) t2
                       else t2);
                  t = modify_function k
                        (\<lambda>a. a\<lparr>a_totalTime := Some (js_add (num_of (a_totalTime a))
                                                          (num_of (f_totalTime (t_frames t2 ! i))))\<rparr>) t;
                  t = modify_function k
                        (\<lambda>a. a\<lparr>a_selfTime := Some (js_add (num_of (a_selfTime a))
                                                         (num_of (f_selfTime (t_frames t2 ! i))))\<rparr>) t;
                  t = (if falsy (t_endTime t)
                          \<or> js_gt (toNumber (f_endTime (t_frames t2 ! i))) (toNumber (t_endTime t))
                       then t\<lparr>t_endTime := f_endTime (t_frames t2 ! i)\<rparr> else t);
                  t = (if q_return q \<noteq> None
                       then modify_frame i (\<lambda>f. f\<lparr>f_return := q_return q\<rparr>) t else t);
                  t = (if q_throw q \<noteq> None
                       then modify_frame i (\<lambda>f. f\<lparr>f_throw := q_throw q\<rparr>) t else t);
                  t = (if q_yield q \<noteq> None
                       then modify_frame i (\<lambda>f. f\<lparr>f_yield := q_yield q\<rparr>) t else t)
              in t)"
    unfolding exit_frame_def Let_def t2_def[symmetric, unfolded t1_def] self[unfolded t1_def]
    using k fr2 by (simp add: t2_def t1_def Let_def)
  show ?thesis
    unfolding t0_def[symmetric] unfold sum.inject
    apply (rule trace.equality)
    apply (simp_all add: Let_def exited_def modify_function_def modify_frame_def rest2 fr2 kl i
        exited_aggregated_def num_of_def t2_def t1_def t0_def exited_frame_def st
        exited_totalTime_def)
    done
qed

section \<open>An invariant of ingestion\<close>

text \<open>
  Every trace that ingestion can reach from a new one is well formed: the stack is the
  sentinel followed by frames in the order of their creation, every reference designates
  an existing object, a frame has no total time exactly while it is on the stack, and a
  frame that was exited has the self time computed at its exit, and exited children only.
\<close>

lemma foldl_sub_cong:
  "(\<And>c. c \<in> set xs \<Longrightarrow> g c = h c)
   \<Longrightarrow> foldl (\<lambda>s c. js_sub s (g c)) a xs = foldl (\<lambda>s c. js_sub s (h c)) a xs"
  by (induction xs arbitrary: a) simp_all

definition on_stack :: "'v trace \<Rightarrow> nat \<Rightarrow> bool" where
  "on_stack t i = (case t_stack t of None \<Rightarrow> False | Some st \<Rightarrow> FrameRef i \<in> set st)"

definition stack_ok :: "'v trace \<Rightarrow> bool" where
  "stack_ok t =
     (case t_stack t of
        None \<Rightarrow> True
      | Some st \<Rightarrow>
          (\<exists>us. st = Sentinel # map FrameRef us \<and> sorted_wrt (<) us
                \<and> (\<forall>u\<in>set us. u < length (t_frames t)))
          \<and> ids_ok t)"

definition store_ok :: "'v trace \<Rightarrow> bool" where
  "store_ok t =
     ((\<forall>i<length (t_frames t).
         f_uid (t_frames t ! i) = i
         \<and> (\<forall>c\<in>set (f_children (t_frames t ! i)). i < c \<and> c < length (t_frames t))
         \<and> (\<exists>k. f_aggregated (t_frames t ! i) = Some k \<and> k < length (t_functions t)))
      \<and> (\<forall>c\<in>set (t_children t). c < length (t_frames t)))"

definition self_ok :: "'v trace \<Rightarrow> nat \<Rightarrow> bool" where
  "self_ok t i =
     (f_selfTime (t_frames t ! i) =
        Some (foldl (\<lambda>s c. js_sub s (num_of (f_totalTime (t_frames t ! c))))
                (num_of (f_totalTime (t_frames t ! i))) (f_children (t_frames t ! i))))"

definition closed_ok :: "'v trace \<Rightarrow> bool" where
  "closed_ok t =
     (\<forall>i<length (t_frames t).
        ((f_totalTime (t_frames t ! i) = None) = on_stack t i)
        \<and> (f_totalTime (t_frames t ! i) \<noteq> None \<longrightarrow>
             self_ok t i
             \<and> (\<forall>c\<in>set (f_children (t_frames t ! i)). f_totalTime (t_frames t ! c) \<noteq> None)))"

definition wf_trace :: "'v trace \<Rightarrow> bool" where
  "wf_trace t = (stack_ok t \<and> store_ok t \<and> closed_ok t)"


lemma store_okD:
  assumes "store_ok t" "i < length (t_frames t)"
  shows "f_uid (t_frames t ! i) = i"
    and "\<And>c. c \<in> set (f_children (t_frames t ! i)) \<Longrightarrow> i < c \<and> c < length (t_frames t)"
    and "\<exists>k. f_aggregated (t_frames t ! i) = Some k \<and> k < length (t_functions t)"
proof -
  from assms have "f_uid (t_frames t ! i) = i
         \<and> (\<forall>c\<in>set (f_children (t_frames t ! i)). i < c \<and> c < length (t_frames t))
         \<and> (\<exists>k. f_aggregated (t_frames t ! i) = Some k \<and> k < length (t_functions t))"
    unfolding store_ok_def by blast
  then show "f_uid (t_frames t ! i) = i"
    and "\<And>c. c \<in> set (f_children (t_frames t ! i)) \<Longrightarrow> i < c \<and> c < length (t_frames t)"
    and "\<exists>k. f_aggregated (t_frames t ! i) = Some k \<and> k < length (t_functions t)"
    by blast+
qed

lemma store_ok_rootsD:
  "store_ok t \<Longrightarrow> c \<in> set (t_children t) \<Longrightarrow> c < length (t_frames t)"
  unfolding store_ok_def by blast

lemma closed_okD:
  assumes "closed_ok t" "i < length (t_frames t)"
  shows "(f_totalTime (t_frames t ! i) = None) = on_stack t i"
    and "f_totalTime (t_frames t ! i) \<noteq> None \<Longrightarrow> self_ok t i"
    and "\<And>c. f_totalTime (t_frames t ! i) \<noteq> None \<Longrightarrow> c \<in> set (f_children (t_frames t ! i))
           \<Longrightarrow> f_totalTime (t_frames t ! c) \<noteq> None"
proof -
  from assms have *: "((f_totalTime (t_frames t ! i) = None) = on_stack t i)
        \<and> (f_totalTime (t_frames t ! i) \<noteq> None \<longrightarrow>
             self_ok t i
             \<and> (\<forall>c\<in>set (f_children (t_frames t ! i)). f_totalTime (t_frames t ! c) \<noteq> None))"
    unfolding closed_ok_def by blast
  from * show "(f_totalTime (t_frames t ! i) = None) = on_stack t i" by blast
  from * show "f_totalTime (t_frames t ! i) \<noteq> None \<Longrightarrow> self_ok t i" by blast
  from * show "\<And>c. f_totalTime (t_frames t ! i) \<noteq> None \<Longrightarrow> c \<in> set (f_children (t_frames t ! i))
           \<Longrightarrow> f_totalTime (t_frames t ! c) \<noteq> None" by blast
qed

lemma closed_okI:
  assumes "\<And>i. i < length (t_frames t) \<Longrightarrow> (f_totalTime (t_frames t ! i) = None) = on_stack t i"
    and "\<And>i. i < length (t_frames t) \<Longrightarrow> f_totalTime (t_frames t ! i) \<noteq> None \<Longrightarrow> self_ok t i"
    and "\<And>i c. i < length (t_frames t) \<Longrightarrow> f_totalTime (t_frames t ! i) \<noteq> None
           \<Longrightarrow> c \<in> set (f_children (t_frames t ! i)) \<Longrightarrow> f_totalTime (t_frames t ! c) \<noteq> None"
  shows "closed_ok t"
  unfolding closed_ok_def using assms by blast

lemma entered_frames_nth:
  assumes "i < length (t_frames t)"
  shows "entered_frames t cur ! i =
     (t_frames t ! i)\<lparr>f_next := (if children_of t cur \<noteq> [] \<and> i = last (children_of t cur)
                                   then Some (length (t_frames t)) else f_next (t_frames t ! i)),
                       f_children := (if cur = FrameRef i
                                      then f_children (t_frames t ! i) @ [length (t_frames t)]
                                      else f_children (t_frames t ! i))\<rparr>"
proof (cases cur)
  case Sentinel
  then show ?thesis using assms
    by (simp add: entered_frames_def Let_def nth_list_update)
next
  case (FrameRef j)
  show ?thesis
  proof (cases "i = j")
    case True
    then show ?thesis using assms FrameRef
      by (simp add: entered_frames_def Let_def nth_list_update)
  next
    case False
    then show ?thesis using assms FrameRef
      by (simp add: entered_frames_def Let_def nth_list_update)
  qed
qed

lemma t_frames_entered:
  "t_stack t = Some st \<Longrightarrow>
   t_frames (entered str t p) = entered_frames t (last st) @ [entered_frame str t (last st) p]"
  by (simp add: entered_def Let_def)

lemma entered_old_fields:
  assumes "i < length (t_frames t)"
  shows "f_uid (entered_frames t cur ! i) = f_uid (t_frames t ! i)"
    and "f_aggregated (entered_frames t cur ! i) = f_aggregated (t_frames t ! i)"
    and "f_fid (entered_frames t cur ! i) = f_fid (t_frames t ! i)"
    and "f_totalTime (entered_frames t cur ! i) = f_totalTime (t_frames t ! i)"
    and "f_selfTime (entered_frames t cur ! i) = f_selfTime (t_frames t ! i)"
    and "f_startTime (entered_frames t cur ! i) = f_startTime (t_frames t ! i)"
    and "f_endTime (entered_frames t cur ! i) = f_endTime (t_frames t ! i)"
    and "f_children (entered_frames t cur ! i) =
           (if cur = FrameRef i then f_children (t_frames t ! i) @ [length (t_frames t)]
            else f_children (t_frames t ! i))"
  using assms by (simp_all add: entered_frames_nth)

lemma stack_okD:
  assumes "stack_ok t" "t_stack t = Some st"
  obtains us where "st = Sentinel # map FrameRef us" "sorted_wrt (<) us"
    "\<And>u. u \<in> set us \<Longrightarrow> u < length (t_frames t)" "ids_ok t" "st \<noteq> []" "ref_ok t (last st)"
    "last st = (if us = [] then Sentinel else FrameRef (last us))"
proof -
  from assms obtain us where us: "st = Sentinel # map FrameRef us" "sorted_wrt (<) us"
    "\<forall>u\<in>set us. u < length (t_frames t)" and ids: "ids_ok t"
    by (auto simp: stack_ok_def)
  have l: "last st = (if us = [] then Sentinel else FrameRef (last us))"
    using us(1) by (simp add: last_map)
  have "ref_ok t (last st)" using l us(3) by (auto simp: ref_ok_def)
  with us ids l show ?thesis using that by auto
qed

lemma entered_fid_lt:
  assumes "ids_ok t"
  shows "entered_fid str t p < length (entered_functions str t p)"
    and "length (t_functions t) \<le> length (entered_functions str t p)"
  using assms
  by (auto simp: ids_ok_def entered_fid_def entered_functions_def Let_def split: option.splits)

lemma ids_ok_entered:
  assumes "ids_ok t" "t_stack t = Some st"
  shows "ids_ok (entered str t p)"
proof -
  obtain ids where ids: "t_functionIds t = Some ids"
      and rng: "\<And>k i. map_of ids k = Some i \<Longrightarrow> i < length (t_functions t)"
    using assms(1) by (auto simp: ids_ok_def split: option.splits)
  show ?thesis
    using ids rng
    by (auto simp: ids_ok_def entered_def Let_def entered_ids_def entered_functions_def
        entered_fid_def update_conv' less_Suc_eq dest: rng split: option.splits if_splits)
qed



lemma entered_facts:
  assumes st: "t_stack t = Some st"
  shows "t_frames (entered str t p) = entered_frames t (last st) @ [entered_frame str t (last st) p]"
    and "length (t_frames (entered str t p)) = Suc (length (t_frames t))"
    and "\<And>i. i < length (t_frames t) \<Longrightarrow> t_frames (entered str t p) ! i = entered_frames t (last st) ! i"
    and "t_frames (entered str t p) ! length (t_frames t) = entered_frame str t (last st) p"
    and "t_stack (entered str t p) = Some (st @ [FrameRef (length (t_frames t))])"
    and "t_functions (entered str t p) = entered_functions str t p"
    and "t_children (entered str t p) =
           (if last st = Sentinel then t_children t @ [length (t_frames t)] else t_children t)"
    and "\<And>j. on_stack (entered str t p) j = (j = length (t_frames t) \<or> on_stack t j)"
  using st by (auto simp: entered_def Let_def nth_append on_stack_def)

lemma stack_ok_entered:
  assumes sk: "stack_ok t" and st: "t_stack t = Some st"
  shows "stack_ok (entered str t p)"
proof -
  from stack_okD[OF sk st] obtain us where us: "st = Sentinel # map FrameRef us"
    "sorted_wrt (<) us" "\<And>u. u \<in> set us \<Longrightarrow> u < length (t_frames t)" "ids_ok t"
    by blast
  have 1: "st @ [FrameRef (length (t_frames t))] = Sentinel # map FrameRef (us @ [length (t_frames t)])"
    using us(1) by simp
  have 2: "sorted_wrt (<) (us @ [length (t_frames t)])"
    using us(2,3) by (simp add: sorted_wrt_append)
  have 3: "\<forall>u\<in>set (us @ [length (t_frames t)]). u < length (t_frames (entered str t p))"
    using us(3) by (auto simp: entered_facts(2)[OF st] less_Suc_eq)
  have 4: "ids_ok (entered str t p)" by (rule ids_ok_entered[OF us(4) st])
  show ?thesis
    unfolding stack_ok_def entered_facts(5)[OF st] option.case
    using 1 2 3 4 by blast
qed


lemma store_ok_entered:
  assumes sk: "stack_ok t" and so: "store_ok t" and st: "t_stack t = Some st"
  shows "store_ok (entered str t p)"
proof -
  define n where "n = length (t_frames t)"
  define t' where "t' = entered str t p"
  note ef = entered_facts[OF st, where str = str and p = p, folded t'_def n_def]
  from stack_okD[OF sk st] have ids: "ids_ok t" by blast
  have a: "f_uid (t_frames t' ! i) = i
       \<and> (\<forall>c\<in>set (f_children (t_frames t' ! i)). i < c \<and> c < length (t_frames t'))
       \<and> (\<exists>k. f_aggregated (t_frames t' ! i) = Some k \<and> k < length (t_functions t'))"
    if "i < length (t_frames t')" for i
  proof (cases "i < n")
    case True
    from so True have "f_uid (t_frames t ! i) = i
         \<and> (\<forall>c\<in>set (f_children (t_frames t ! i)). i < c \<and> c < n)
         \<and> (\<exists>k. f_aggregated (t_frames t ! i) = Some k \<and> k < length (t_functions t))"
      unfolding store_ok_def n_def by blast
    then have o: "f_uid (t_frames t ! i) = i"
      "\<And>c. c \<in> set (f_children (t_frames t ! i)) \<Longrightarrow> i < c \<and> c < n"
      "\<exists>k. f_aggregated (t_frames t ! i) = Some k \<and> k < length (t_functions t)"
      by blast+
    note of = entered_old_fields[of i t "last st", folded n_def, OF True]
    have 1: "f_uid (t_frames t' ! i) = i" using o(1) True by (simp add: ef(3) of)
    have 2: "\<forall>c\<in>set (f_children (t_frames t' ! i)). i < c \<and> c < length (t_frames t')"
      using o(2) True by (auto simp: ef(2,3) of less_Suc_eq)
    have 3: "\<exists>k. f_aggregated (t_frames t' ! i) = Some k \<and> k < length (t_functions t')"
      using o(3) True entered_fid_lt(2)[OF ids, of str p] by (auto simp: ef(3,6) of)
    show ?thesis using 1 2 3 by blast
  next
    case False
    with that have "i = n" by (simp add: ef(2))
    then show ?thesis
      using entered_fid_lt(1)[OF ids, of str p]
      by (simp add: ef(4,6) entered_frame_def Let_def n_def[symmetric])
  qed
  have b: "\<forall>c\<in>set (t_children t'). c < length (t_frames t')"
  proof -
    from so have "\<forall>c\<in>set (t_children t). c < n" unfolding store_ok_def n_def by blast
    then show ?thesis by (auto simp: ef(2,7) less_Suc_eq)
  qed
  show ?thesis unfolding store_ok_def t'_def[symmetric] using a b by blast
qed


lemma closed_ok_entered:
  assumes sk: "stack_ok t" and so: "store_ok t" and co: "closed_ok t" and st: "t_stack t = Some st"
  shows "closed_ok (entered str t p)"
proof (rule closed_okI)
  define n where "n = length (t_frames t)"
  define t' where "t' = entered str t p"
  note ef = entered_facts[OF st, where str = str and p = p, folded t'_def n_def]
  from stack_okD[OF sk st] have ne: "st \<noteq> []" by blast
  have cur_on: "\<And>i. last st = FrameRef i \<Longrightarrow> on_stack t i"
    using ne by (auto simp: on_stack_def st dest: last_in_set)
  have tt: "f_totalTime (t_frames t' ! i) = f_totalTime (t_frames t ! i)" if "i < n" for i
    using that by (simp add: ef(3) entered_old_fields n_def)
  have newtt: "f_totalTime (t_frames t' ! n) = None"
    by (simp add: ef(4) entered_frame_def Let_def)
  have cases_i: "i < n \<or> i = n" if "i < length (t_frames t')" for i
    using that by (auto simp: ef(2))
  show "(f_totalTime (t_frames (entered str t p) ! i) = None) = on_stack (entered str t p) i"
    if "i < length (t_frames (entered str t p))" for i
  proof -
    have "(f_totalTime (t_frames t ! i) = None) = on_stack t i" if "i < n"
      using closed_okD(1)[OF co, of i] that unfolding n_def by simp
    then show ?thesis
      using cases_i[OF that[folded t'_def]]
      unfolding t'_def[symmetric] by (auto simp: tt newtt ef(8))
  qed
  have closed_old: "i < n \<and> last st \<noteq> FrameRef i \<and> f_totalTime (t_frames t ! i) \<noteq> None"
    if "i < length (t_frames t')" "f_totalTime (t_frames t' ! i) \<noteq> None" for i
  proof -
    from cases_i[OF that(1)] that(2) newtt have i: "i < n" by auto
    with that(2) have cl: "f_totalTime (t_frames t ! i) \<noteq> None" by (simp add: tt)
    with closed_okD(1)[OF co, of i] i have "\<not> on_stack t i" by (simp add: n_def)
    with cur_on have "last st \<noteq> FrameRef i" by auto
    with i cl show ?thesis by simp
  qed
  have ch: "f_children (t_frames t' ! i) = f_children (t_frames t ! i)"
    if "i < n" "last st \<noteq> FrameRef i" for i
    using that by (simp add: ef(3) entered_old_fields n_def)
  show "self_ok (entered str t p) i"
    if "i < length (t_frames (entered str t p))" "f_totalTime (t_frames (entered str t p) ! i) \<noteq> None" for i
  proof -
    from closed_old[OF that[folded t'_def]] have i: "i < n" "last st \<noteq> FrameRef i"
      "f_totalTime (t_frames t ! i) \<noteq> None" by auto
    have il: "i < length (t_frames t)" using i(1) unfolding n_def .
    have cn: "\<And>c. c \<in> set (f_children (t_frames t ! i)) \<Longrightarrow> c < n"
      using store_okD(2)[OF so il] unfolding n_def by blast
    have sf: "f_selfTime (t_frames t' ! i) = f_selfTime (t_frames t ! i)"
      using il by (simp add: ef(3)[OF i(1)] entered_old_fields)
    have eq: "foldl (\<lambda>s c. js_sub s (num_of (f_totalTime (t_frames t' ! c))))
                (num_of (f_totalTime (t_frames t ! i))) (f_children (t_frames t ! i))
        = foldl (\<lambda>s c. js_sub s (num_of (f_totalTime (t_frames t ! c))))
                (num_of (f_totalTime (t_frames t ! i))) (f_children (t_frames t ! i))"
    proof (rule foldl_sub_cong)
      fix c assume "c \<in> set (f_children (t_frames t ! i))"
      then have "c < n" by (rule cn)
      then show "num_of (f_totalTime (t_frames t' ! c)) = num_of (f_totalTime (t_frames t ! c))"
        by (simp only: tt)
    qed
    have "self_ok t i" by (rule closed_okD(2)[OF co il i(3)])
    then have "f_selfTime (t_frames t ! i) =
        Some (foldl (\<lambda>s c. js_sub s (num_of (f_totalTime (t_frames t ! c))))
                (num_of (f_totalTime (t_frames t ! i))) (f_children (t_frames t ! i)))"
      unfolding self_ok_def .
    then have "f_selfTime (t_frames t' ! i) =
        Some (foldl (\<lambda>s c. js_sub s (num_of (f_totalTime (t_frames t' ! c))))
                (num_of (f_totalTime (t_frames t' ! i))) (f_children (t_frames t' ! i)))"
      unfolding sf tt[OF i(1)] ch[OF i(1,2)] eq .
    then show ?thesis unfolding self_ok_def t'_def .
  qed
  show "f_totalTime (t_frames (entered str t p) ! c) \<noteq> None"
    if "i < length (t_frames (entered str t p))" "f_totalTime (t_frames (entered str t p) ! i) \<noteq> None"
      "c \<in> set (f_children (t_frames (entered str t p) ! i))" for i c
  proof -
    from closed_old[OF that(1,2)[folded t'_def]] have i: "i < n" "last st \<noteq> FrameRef i"
      "f_totalTime (t_frames t ! i) \<noteq> None" by auto
    have il: "i < length (t_frames t)" using i(1) unfolding n_def .
    from that(3) have c: "c \<in> set (f_children (t_frames t ! i))"
      unfolding t'_def[symmetric] ch[OF i(1,2)] .
    have "c < n" using store_okD(2)[OF so il c] unfolding n_def by blast
    then have "f_totalTime (t_frames t' ! c) = f_totalTime (t_frames t ! c)" by (rule tt)
    moreover have "f_totalTime (t_frames t ! c) \<noteq> None" by (rule closed_okD(3)[OF co il i(3) c])
    ultimately show ?thesis unfolding t'_def by simp
  qed
qed

lemma wf_entered:
  assumes wf: "wf_trace t" and st: "t_stack t = Some st"
  shows "wf_trace (entered str t p)"
  using assms stack_ok_entered store_ok_entered closed_ok_entered
  unfolding wf_trace_def by blast


lemma exited_facts:
  assumes st: "t_stack t = Some st"
  shows "t_frames (exited t i k q) = (t_frames t)[i := exited_frame t i q]"
    and "length (t_frames (exited t i k q)) = length (t_frames t)"
    and "t_stack (exited t i k q) = Some (butlast st)"
    and "length (t_functions (exited t i k q)) = length (t_functions t)"
    and "t_functionIds (exited t i k q) = t_functionIds t"
    and "t_children (exited t i k q) = t_children t"
    and "\<And>j. j \<noteq> i \<Longrightarrow> t_frames (exited t i k q) ! j = t_frames t ! j"
    and "i < length (t_frames t) \<Longrightarrow> t_frames (exited t i k q) ! i = exited_frame t i q"
  using st by (simp_all add: exited_def)

lemma exited_frame_fields:
  shows "f_uid (exited_frame t i q) = f_uid (t_frames t ! i)"
    and "f_children (exited_frame t i q) = f_children (t_frames t ! i)"
    and "f_aggregated (exited_frame t i q) = f_aggregated (t_frames t ! i)"
    and "f_totalTime (exited_frame t i q) = Some (exited_totalTime t i q)"
    and "f_selfTime (exited_frame t i q) = Some (exited_selfTime t i q)"
    and "f_endTime (exited_frame t i q) = q_time q"
    and "f_startTime (exited_frame t i q) = f_startTime (t_frames t ! i)"
  by (simp_all add: exited_frame_def)

lemma wf_exited:
  assumes wf: "wf_trace t" and st: "t_stack t = Some st" and top: "last st = FrameRef i"
    and k: "f_aggregated (t_frames t ! i) = Some k"
  shows "wf_trace (exited t i k q)"
proof -
  define t' where "t' = exited t i k q"
  from wf have sk: "stack_ok t" and so: "store_ok t" and co: "closed_ok t"
    by (simp_all add: wf_trace_def)
  from stack_okD[OF sk st] obtain us where us: "st = Sentinel # map FrameRef us"
    "sorted_wrt (<) us" "\<And>u. u \<in> set us \<Longrightarrow> u < length (t_frames t)" "ids_ok t"
    "last st = (if us = [] then Sentinel else FrameRef (last us))"
    by blast
  from us(5) top have ne: "us \<noteq> []" and li: "last us = i" by (auto split: if_splits)
  then have usb: "us = butlast us @ [i]" by (metis append_butlast_last_id)
  have il: "i < length (t_frames t)" using us(3)[of i] ne li by (metis last_in_set)
  have sorted': "sorted_wrt (<) (butlast us)" and below: "\<And>u. u \<in> set (butlast us) \<Longrightarrow> u < i"
    using us(2) usb by (metis sorted_wrt_append, metis sorted_wrt_append list.set_intros(1))
  have all_le: "\<And>u. u \<in> set us \<Longrightarrow> u \<le> i"
  proof -
    fix u assume "u \<in> set us"
    then have "u \<in> set (butlast us) \<or> u = i" using usb
      by (metis Un_iff empty_iff insert_iff list.set(1) list.set(2) set_append)
    then show "u \<le> i" using below[of u] by auto
  qed
  note xf = exited_facts[OF st, where i = i and k = k and q = q, folded t'_def]
  have stk': "t_stack t' = Some (Sentinel # map FrameRef (butlast us))"
    using us(1) ne by (simp add: xf(3) map_butlast)
  have on_t: "\<And>j. on_stack t j = (j \<in> set us)"
    by (auto simp: on_stack_def st us(1))
  have on_t': "\<And>j. on_stack t' j = (j \<in> set (butlast us))"
    by (auto simp: on_stack_def stk')
  have on': "\<And>j. on_stack t' j = (on_stack t j \<and> j \<noteq> i)"
  proof -
    fix j
    have "j \<in> set us \<longleftrightarrow> j \<in> set (butlast us) \<or> j = i" using usb
      by (metis Un_iff empty_iff insert_iff list.set(1) list.set(2) set_append)
    moreover have "j \<in> set (butlast us) \<Longrightarrow> j \<noteq> i" using below[of j] by auto
    ultimately show "on_stack t' j = (on_stack t j \<and> j \<noteq> i)" unfolding on_t on_t' by blast
  qed
  have frame_i: "t_frames t' ! i = exited_frame t i q" by (rule xf(8)[OF il])
  have "stack_ok t'"
  proof -
    have "\<forall>u\<in>set (butlast us). u < length (t_frames t')"
    proof
      fix u assume "u \<in> set (butlast us)"
      then have "u \<in> set us" by (rule in_set_butlastD)
      then show "u < length (t_frames t')" using us(3)[of u] by (simp add: xf(2))
    qed
    moreover have "ids_ok t'" using us(4) unfolding ids_ok_def xf(4,5) .
    ultimately show ?thesis unfolding stack_ok_def stk' option.case using sorted' by blast
  qed
  moreover have "store_ok t'"
  proof -
    have a: "f_uid (t_frames t' ! j) = j
         \<and> (\<forall>c\<in>set (f_children (t_frames t' ! j)). j < c \<and> c < length (t_frames t'))
         \<and> (\<exists>k. f_aggregated (t_frames t' ! j) = Some k \<and> k < length (t_functions t'))"
      if "j < length (t_frames t')" for j
    proof -
      have jl: "j < length (t_frames t)" using that by (simp add: xf(2))
      note o = store_okD[OF so jl]
      have f: "f_uid (t_frames t' ! j) = f_uid (t_frames t ! j)"
        "f_children (t_frames t' ! j) = f_children (t_frames t ! j)"
        "f_aggregated (t_frames t' ! j) = f_aggregated (t_frames t ! j)"
        by (cases "j = i"; simp add: xf(7) frame_i exited_frame_fields)+
      show ?thesis unfolding f xf(2,4) using o by blast
    qed
    have b: "\<forall>c\<in>set (t_children t'). c < length (t_frames t')"
      using store_ok_rootsD[OF so] by (simp add: xf(2,6))
    show ?thesis unfolding store_ok_def using a b by blast
  qed
  moreover have "closed_ok t'"
  proof (rule closed_okI)
    fix j assume j: "j < length (t_frames t')"
    then have jl: "j < length (t_frames t)" by (simp add: xf(2))
    show "(f_totalTime (t_frames t' ! j) = None) = on_stack t' j"
    proof (cases "j = i")
      case True
      then show ?thesis by (simp add: frame_i exited_frame_fields on')
    next
      case False
      then show ?thesis using closed_okD(1)[OF co jl] by (simp add: xf(7) on')
    qed
  next
    fix j assume j: "j < length (t_frames t')" and cl: "f_totalTime (t_frames t' ! j) \<noteq> None"
    then have jl: "j < length (t_frames t)" by (simp add: xf(2))
    have chj: "f_children (t_frames t' ! j) = f_children (t_frames t ! j)"
      by (cases "j = i"; simp add: xf(7) frame_i exited_frame_fields)
    have child_ne: "c \<noteq> i" if "c \<in> set (f_children (t_frames t ! j))" for c
    proof (cases "j = i")
      case True
      then show ?thesis using store_okD(2)[OF so jl that] by auto
    next
      case False
      with cl have "f_totalTime (t_frames t ! j) \<noteq> None" by (simp add: xf(7))
      from closed_okD(3)[OF co jl this that] have "f_totalTime (t_frames t ! c) \<noteq> None" .
      moreover have "f_totalTime (t_frames t ! i) = None"
        using closed_okD(1)[OF co il] on_t[of i] ne li by (metis last_in_set)
      ultimately show ?thesis by auto
    qed
    have ctt: "f_totalTime (t_frames t' ! c) = f_totalTime (t_frames t ! c)"
      if "c \<in> set (f_children (t_frames t ! j))" for c
      using child_ne[OF that] by (simp add: xf(7))
    have child_closed: "f_totalTime (t_frames t ! c) \<noteq> None"
      if "c \<in> set (f_children (t_frames t ! j))" for c
    proof (cases "j = i")
      case True
      from store_okD(2)[OF so jl that] True have c: "i < c" "c < length (t_frames t)" by auto
      have "\<not> on_stack t c" using all_le[of c] c(1) unfolding on_t by auto
      then show ?thesis using closed_okD(1)[OF co c(2)] by simp
    next
      case False
      with cl have "f_totalTime (t_frames t ! j) \<noteq> None" by (simp add: xf(7))
      from closed_okD(3)[OF co jl this that] show ?thesis .
    qed
    show "self_ok t' j"
    proof (cases "j = i")
      case True
      have "exited_selfTime t i q =
          foldl (\<lambda>s c. js_sub s (num_of (f_totalTime (t_frames t' ! c))))
            (exited_totalTime t i q) (f_children (t_frames t ! i))"
        unfolding exited_selfTime_def
      proof (rule foldl_sub_cong)
        fix c assume c: "c \<in> set (f_children (t_frames t ! i))"
        then have "c \<noteq> i" using child_ne[of c] True by simp
        then show "num_of (f_totalTime ((t_frames t)
                [i := (t_frames t ! i)\<lparr>f_totalTime := Some (exited_totalTime t i q)\<rparr>] ! c))
              = num_of (f_totalTime (t_frames t' ! c))"
          by (simp add: xf(7))
      qed
      then show ?thesis
        unfolding self_ok_def True frame_i exited_frame_fields by (simp add: num_of_def)
    next
      case False
      with cl have cl0: "f_totalTime (t_frames t ! j) \<noteq> None" by (simp add: xf(7))
      have eq: "foldl (\<lambda>s c. js_sub s (num_of (f_totalTime (t_frames t' ! c))))
                (num_of (f_totalTime (t_frames t ! j))) (f_children (t_frames t ! j))
        = foldl (\<lambda>s c. js_sub s (num_of (f_totalTime (t_frames t ! c))))
                (num_of (f_totalTime (t_frames t ! j))) (f_children (t_frames t ! j))"
        by (rule foldl_sub_cong) (simp only: ctt)
      have "self_ok t j" by (rule closed_okD(2)[OF co jl cl0])
      then show ?thesis unfolding self_ok_def xf(7)[OF False] eq .
    qed
    fix c assume c: "c \<in> set (f_children (t_frames t' ! j))"
    then have c0: "c \<in> set (f_children (t_frames t ! j))" unfolding chj .
    show "f_totalTime (t_frames t' ! c) \<noteq> None"
      using child_closed[OF c0] ctt[OF c0] by simp
  qed
  ultimately show ?thesis unfolding wf_trace_def t'_def by simp
qed


lemma wf_Trace: "wf_trace (Trace client name)"
proof -
  have "stack_ok (Trace client name)"
    unfolding stack_ok_def by (simp add: Trace_def ids_ok_def)
  moreover have "store_ok (Trace client name)"
    unfolding store_ok_def by (simp add: Trace_def)
  moreover have "closed_ok (Trace client name)"
    unfolding closed_ok_def by (simp add: Trace_def)
  ultimately show ?thesis unfolding wf_trace_def by simp
qed

lemma step_finished:
  "t_stack t = None \<Longrightarrow> step str t e = Inl (TypeError, t)"
  by (cases e) (simp_all add: onEnteredFrame_def onExitedFrame_def)

lemma step_entered:
  assumes "wf_trace t" "t_stack t = Some st"
  shows "step str t (EnteredFrame p) = Inr (entered str t p)"
proof -
  from assms(1) have sk: "stack_ok t" by (simp add: wf_trace_def)
  from stack_okD[OF sk assms(2)] have "st \<noteq> []" "ids_ok t" "ref_ok t (last st)" by blast+
  then show ?thesis by (simp add: onEnteredFrame_entered[OF assms(2)])
qed

lemma step_underflow:
  assumes "t_stack t = Some st" "st \<noteq> []" "last st = Sentinel"
  shows "step str t (ExitedFrame q) = finish t"
  using assms by (simp add: onExitedFrame_def currentFrame_def)

lemma step_exited:
  assumes wf: "wf_trace t" and st: "t_stack t = Some st" and top: "last st = FrameRef i"
  shows "\<exists>k. f_aggregated (t_frames t ! i) = Some k \<and> k < length (t_functions t)
            \<and> i < length (t_frames t)
            \<and> step str t (ExitedFrame q) = Inr (exited t i k q)"
proof -
  from wf have sk: "stack_ok t" and so: "store_ok t" by (simp_all add: wf_trace_def)
  from stack_okD[OF sk st] have ne: "st \<noteq> []" and r: "ref_ok t (last st)" by blast+
  from r top have il: "i < length (t_frames t)" by (simp add: ref_ok_def)
  from store_okD(3)[OF so il] obtain k where k: "f_aggregated (t_frames t ! i) = Some k"
    "k < length (t_functions t)" by blast
  have "step str t (ExitedFrame q) = exit_frame i q (t\<lparr>t_stack := Some (butlast st)\<rparr>)"
    using st ne top by (simp add: onExitedFrame_def currentFrame_def)
  also have "\<dots> = Inr (exited t i k q)" by (rule exit_frame_exited[OF il k st])
  finally show ?thesis using k il by blast
qed

lemma finish_fields:
  assumes "finish t = Inr t'"
  shows "t_frames t' = t_frames t" "t_stack t' = None" "t_children t' = t_children t"
    "t_functions t' = t_functions t" "t_functionIds t' = None" "t_finished t'"
    "t_startTime t' = t_startTime t" "t_endTime t' = t_endTime t" "t_maxDepth t' = t_maxDepth t"
    "\<exists>c. t_client t = Some c \<and>
         t_client t' = Some (removeListener ''exitedFrame'' (removeListener ''enteredFrame'' c))"
proof -
  from assms obtain c where c: "t_client t = Some c"
    by (cases "t_client t") (simp_all add: finish_def)
  with assms have t': "t' = t\<lparr>t_client := Some (removeListener ''exitedFrame''
                                     (removeListener ''enteredFrame'' c)),
                 t_stack := None, t_functionIds := None, t_finished := True\<rparr>"
    by (simp add: finish_def)
  show "t_frames t' = t_frames t" "t_stack t' = None" "t_children t' = t_children t"
    "t_functions t' = t_functions t" "t_functionIds t' = None" "t_finished t'"
    "t_startTime t' = t_startTime t" "t_endTime t' = t_endTime t" "t_maxDepth t' = t_maxDepth t"
    "\<exists>c. t_client t = Some c \<and>
         t_client t' = Some (removeListener ''exitedFrame'' (removeListener ''enteredFrame'' c))"
    using c by (simp_all add: t')
qed

lemma wf_finish:
  assumes wf: "wf_trace t" and st: "t_stack t = Some st" and top: "last st = Sentinel"
    and f: "finish t = Inr t'"
  shows "wf_trace t'"
proof -
  from wf have sk: "stack_ok t" and so: "store_ok t" and co: "closed_ok t"
    by (simp_all add: wf_trace_def)
  from stack_okD[OF sk st] obtain us where us: "st = Sentinel # map FrameRef us"
    "last st = (if us = [] then Sentinel else FrameRef (last us))" by blast
  from us(2) top have "us = []" by (auto split: if_splits)
  with us(1) have on: "\<And>j. on_stack t j = False" by (simp add: on_stack_def st)
  note ff = finish_fields[OF f]
  have on': "\<And>j. on_stack t' j = False" by (simp add: on_stack_def ff(2))
  have "stack_ok t'" unfolding stack_ok_def by (simp add: ff(2))
  moreover have "store_ok t'" using so unfolding store_ok_def ff(1,3,4) .
  moreover have "closed_ok t'" using co unfolding closed_ok_def self_ok_def ff(1) on on' .
  ultimately show ?thesis unfolding wf_trace_def by simp
qed


lemma wf_step:
  assumes wf: "wf_trace t" and s: "step str t e = Inr t'"
  shows "wf_trace t'"
proof (cases "t_stack t")
  case None
  then show ?thesis using s by (simp add: step_finished)
next
  case (Some st)
  from wf have sk: "stack_ok t" by (simp add: wf_trace_def)
  from stack_okD[OF sk Some] have ne: "st \<noteq> []" by blast
  show ?thesis
  proof (cases e)
    case (EnteredFrame p)
    then have "t' = entered str t p" using s step_entered[OF wf Some] by simp
    then show ?thesis using wf_entered[OF wf Some] by simp
  next
    case (ExitedFrame q)
    show ?thesis
    proof (cases "last st")
      case Sentinel
      then have "finish t = Inr t'" using s ExitedFrame step_underflow[OF Some ne] by simp
      then show ?thesis by (rule wf_finish[OF wf Some Sentinel])
    next
      case (FrameRef i)
      from step_exited[OF wf Some FrameRef, of str q] obtain k where
        k: "f_aggregated (t_frames t ! i) = Some k" "step str t (ExitedFrame q) = Inr (exited t i k q)"
        by blast
      then have "t' = exited t i k q" using s ExitedFrame by simp
      then show ?thesis using wf_exited[OF wf Some FrameRef k(1)] by simp
    qed
  qed
qed

lemma run_Cons_Inr:
  "run str (e # es) t = Inr t' \<Longrightarrow> \<exists>t1. step str t e = Inr t1 \<and> run str es t1 = Inr t'"
  by (cases "step str t e") simp_all

lemma wf_run:
  "wf_trace t \<Longrightarrow> run str evs t = Inr t' \<Longrightarrow> wf_trace t'"
proof (induction evs arbitrary: t)
  case Nil
  then show ?case by simp
next
  case (Cons e es)
  from run_Cons_Inr[OF Cons.prems(2)] obtain t1 where
    t1: "step str t e = Inr t1" "run str es t1 = Inr t'" by blast
  from wf_step[OF Cons.prems(1) t1(1)] have "wf_trace t1" .
  from Cons.IH[OF this t1(2)] show ?case .
qed

lemma run_append:
  "run str (xs @ ys) t = (case run str xs t of Inl err \<Rightarrow> Inl err | Inr t' \<Rightarrow> run str ys t')"
proof (induction xs arbitrary: t)
  case Nil
  then show ?case by simp
next
  case (Cons e es)
  then show ?case by (cases "step str t e") simp_all
qed

lemma run_snoc_Inr:
  "run str (es @ [e]) t = Inr t' \<Longrightarrow> \<exists>t1. run str es t = Inr t1 \<and> step str t1 e = Inr t'"
  unfolding run_append by (cases "run str es t"; cases "step str (projr (run str es t)) e") auto

lemma wf_reachable:
  "run str evs (Trace client name) = Inr t \<Longrightarrow> wf_trace t"
  using wf_run[OF wf_Trace] by blast

section \<open>Properties of ingestion\<close>

lemma entered_fields:
  assumes st: "t_stack t = Some st"
  shows "t_startTime (entered str t p) = (if \<not> is_number (t_startTime t) then p_time p else t_startTime t)"
    and "t_endTime (entered str t p) = p_time p"
    and "t_client (entered str t p) = t_client t"
    and "t_finished (entered str t p) = t_finished t"
  using st by (simp_all add: entered_def Let_def)

lemma exited_fields:
  assumes st: "t_stack t = Some st"
  shows "t_startTime (exited t i k q) = t_startTime t"
    and "t_endTime (exited t i k q) =
           (if falsy (t_endTime t) \<or> js_gt (toNumber (q_time q)) (toNumber (t_endTime t))
            then q_time q else t_endTime t)"
    and "t_client (exited t i k q) = t_client t"
    and "t_finished (exited t i k q) = t_finished t"
  using st by (simp_all add: exited_def)

text \<open>Events and a simplification set for the examples below.\<close>

definition ent :: "string \<Rightarrow> jsval \<Rightarrow> unit event" where
  "ent nm tm = EnteredFrame \<lparr>p_name = Some nm, p_location = None, p_parameterNames = None,
     p_callsite = None, p_arguments = None, p_time = tm\<rparr>"

definition ext :: "jsval \<Rightarrow> unit event" where
  "ext tm = ExitedFrame \<lparr>q_time = tm, q_return = None, q_throw = None, q_yield = None\<rparr>"

lemmas model_defs = ent_def ext_def Trace_def onEnteredFrame_def onExitedFrame_def currentFrame_def
  link_frame_def new_frame_def push_child_def modify_frame_def modify_function_def
  enter_function_def enter_timing_def exit_frame_def finish_def children_of_def
  locationToString_def Let_def addListener_def removeListener_def num_of_def js_sub_def
  js_gt_def js_truthy_def

fun event_time :: "'v event \<Rightarrow> jsval" where
  "event_time (EnteredFrame p) = p_time p"
| "event_time (ExitedFrame q) = q_time q"

subsection \<open>Exit at the sentinel\<close>



text \<open>
  A trace constructed without a client (as \<open>parseTrace\<close> does) has no source to detach
  from: \<open>finish\<close> fails on its first statement and leaves the trace as it was.
\<close>

lemma exit_at_sentinel_without_client:
  assumes "t_stack t = Some st" and "currentFrame st = Some Sentinel" and "t_client t = None"
  shows "onExitedFrame t packet = Inl (TypeError, t)"
  using assms by (simp add: onExitedFrame_def finish_def)


subsection \<open>Packets are not validated\<close>

lemma push_entered_live:
  assumes "t_stack t = Some st" "st \<noteq> []"
  shows "\<exists>t1. push_entered t = Inr t1
           \<and> length (t_frames t1) = Suc (length (t_frames t))
           \<and> t_stack t1 = Some (st @ [FrameRef (length (t_frames t))])"
  using assms
  by (auto simp: push_entered_def currentFrame_def link_frame_def push_child_def
      modify_frame_def Let_def split: ref.splits prod.splits if_splits)

lemma onEnteredFrame_any_finished:
  "t_stack t = None \<Longrightarrow> onEnteredFrame_any sfy t pk = Inl (TypeError, t)"
  by (simp add: onEnteredFrame_any_def push_entered_def)

lemma onExitedFrame_any_finished:
  "t_stack t = None \<Longrightarrow> onExitedFrame_any t qk = Inl (TypeError, t)"
  by (simp add: onExitedFrame_any_def)

lemma onEnteredFrame_any_missing:
  assumes "t_stack t = Some st" "st \<noteq> []"
    and "pk = None \<or> (\<exists>p l. pk = Some p \<and> p_location p = Some l \<and> sfy l = None)"
  shows "\<exists>t1. onEnteredFrame_any sfy t pk = Inl (TypeError, t1)
           \<and> length (t_frames t1) = Suc (length (t_frames t))
           \<and> t_stack t1 = Some (st @ [FrameRef (length (t_frames t))])"
proof -
  from push_entered_live[OF assms(1,2)] obtain t1 where
    t1: "push_entered t = Inr t1" "length (t_frames t1) = Suc (length (t_frames t))"
      "t_stack t1 = Some (st @ [FrameRef (length (t_frames t))])" by blast
  from assms(3) have "onEnteredFrame_any sfy t pk = Inl (TypeError, t1)"
    by (auto simp: onEnteredFrame_any_def t1(1))
  with t1 show ?thesis by blast
qed

lemma onExitedFrame_any_missing:
  assumes "t_stack t = Some st" "last st = FrameRef i" "st \<noteq> []"
  shows "onExitedFrame_any t None = Inl (TypeError, t\<lparr>t_stack := Some (butlast st)\<rparr>)"
  using assms by (simp add: onExitedFrame_any_def currentFrame_def)

text \<open>
  C5, as the code has it. No packet is validated. On every trace that ingestion has reached
  and that is not finalized, an enter packet is handled whatever its \<open>time\<close> is, a
  missing one included: the frame is created with that start time, and the end time of the
  trace is set to it. Likewise an exit packet closes the frame on top of the stack with
  whatever \<open>time\<close> it has (the total time is \<open>NaN\<close> when it is missing). The failures
  that exist are the \<open>TypeError\<close>s of the language. Two of them leave the trace as it
  was: any event on a finalized trace, and an exit at the sentinel of a trace without
  client. The others do not: an enter event whose packet is missing, or whose location
  \<open>JSON.stringify\<close> rejects, fails after the new frame was pushed to the frames and to
  the stack, and an exit event whose packet is missing fails after the stack was popped.
\<close>

theorem events_not_validated:
  assumes "run str evs (Trace client name) = Inr t"
  shows "(t_stack t \<noteq> None \<longrightarrow>
            (\<exists>t'. onEnteredFrame str t p = Inr t'
                \<and> length (t_frames t') = Suc (length (t_frames t))
                \<and> f_startTime (t_frames t' ! length (t_frames t)) = p_time p
                \<and> t_endTime t' = p_time p))
       \<and> (\<forall>st i. t_stack t = Some st \<and> last st = FrameRef i \<longrightarrow>
            (\<exists>t'. onExitedFrame t q = Inr t'
                \<and> t_stack t' = Some (butlast st)
                \<and> f_endTime (t_frames t' ! i) = q_time q
                \<and> f_totalTime (t_frames t' ! i) =
                    Some (js_sub (toNumber (q_time q)) (toNumber (f_startTime (t_frames t ! i))))))
       \<and> onEnteredFrame_any (\<lambda>l. Some (str l)) t (Some p) = onEnteredFrame str t p
       \<and> onExitedFrame_any t (Some q) = onExitedFrame t q
       \<and> (t_stack t = None \<longrightarrow>
            onEnteredFrame_any sfy t pk = Inl (TypeError, t)
            \<and> onExitedFrame_any t qk = Inl (TypeError, t))
       \<and> (t_stack t = Some [Sentinel] \<and> t_client t = None \<longrightarrow>
            onExitedFrame_any t qk = Inl (TypeError, t))
       \<and> (\<forall>st. t_stack t = Some st
              \<and> (pk = None \<or> (\<exists>p' l. pk = Some p' \<and> p_location p' = Some l \<and> sfy l = None)) \<longrightarrow>
            (\<exists>t1. onEnteredFrame_any sfy t pk = Inl (TypeError, t1)
                \<and> length (t_frames t1) = Suc (length (t_frames t))
                \<and> t_stack t1 = Some (st @ [FrameRef (length (t_frames t))])))
       \<and> (\<forall>st i. t_stack t = Some st \<and> last st = FrameRef i \<longrightarrow>
            onExitedFrame_any t None = Inl (TypeError, t\<lparr>t_stack := Some (butlast st)\<rparr>))"
proof -
  from wf_reachable[OF assms] have wf: "wf_trace t" .
  then have sk: "stack_ok t" by (simp add: wf_trace_def)
  have ne: "st \<noteq> []" if "t_stack t = Some st" for st
    using stack_okD[OF sk that] by blast
  have 1: "\<exists>t'. onEnteredFrame str t p = Inr t'
                \<and> length (t_frames t') = Suc (length (t_frames t))
                \<and> f_startTime (t_frames t' ! length (t_frames t)) = p_time p
                \<and> t_endTime t' = p_time p" if "t_stack t \<noteq> None"
  proof -
    from that obtain st where st: "t_stack t = Some st" by blast
    from step_entered[OF wf st, of str p]
    have "onEnteredFrame str t p = Inr (entered str t p)" by simp
    then show ?thesis
      by (simp add: entered_facts(2,4)[OF st] entered_fields(2)[OF st] entered_frame_def Let_def)
  qed
  have 2: "\<exists>t'. onExitedFrame t q = Inr t'
                \<and> t_stack t' = Some (butlast st)
                \<and> f_endTime (t_frames t' ! i) = q_time q
                \<and> f_totalTime (t_frames t' ! i) =
                    Some (js_sub (toNumber (q_time q)) (toNumber (f_startTime (t_frames t ! i))))"
    if "t_stack t = Some st" "last st = FrameRef i" for st i
  proof -
    from step_exited[OF wf that, of str q] obtain k where
      k: "i < length (t_frames t)" "step str t (ExitedFrame q) = Inr (exited t i k q)" by blast
    then have "onExitedFrame t q = Inr (exited t i k q)" by simp
    then show ?thesis
      by (simp add: exited_facts(3,8)[OF that(1)] k(1) exited_frame_fields exited_totalTime_def)
  qed
  have 3: "onEnteredFrame_any sfy t pk = Inl (TypeError, t)
            \<and> onExitedFrame_any t qk = Inl (TypeError, t)" if "t_stack t = None"
    using that by (simp add: onEnteredFrame_any_finished onExitedFrame_any_finished)
  have 4: "onExitedFrame_any t qk = Inl (TypeError, t)"
    if "t_stack t = Some [Sentinel]" "t_client t = None"
    using that by (simp add: onExitedFrame_any_def currentFrame_def finish_def)
  have 5: "\<exists>t1. onEnteredFrame_any sfy t pk = Inl (TypeError, t1)
                \<and> length (t_frames t1) = Suc (length (t_frames t))
                \<and> t_stack t1 = Some (st @ [FrameRef (length (t_frames t))])"
    if "t_stack t = Some st"
      "pk = None \<or> (\<exists>p' l. pk = Some p' \<and> p_location p' = Some l \<and> sfy l = None)" for st
    by (rule onEnteredFrame_any_missing[OF that(1) ne[OF that(1)] that(2)])
  have 6: "onExitedFrame_any t None = Inl (TypeError, t\<lparr>t_stack := Some (butlast st)\<rparr>)"
    if "t_stack t = Some st" "last st = FrameRef i" for st i
    by (rule onExitedFrame_any_missing[OF that ne[OF that(1)]])
  show ?thesis
    using 1 2 3 4 5 6 onEnteredFrame_any_packet[of str t p] onExitedFrame_any_packet[of t q]
    by blast
qed

text \<open>
  Witness for C5: on a new trace, an enter packet without \<open>time\<close> is handled, and an
  enter event without packet fails with the frame pushed.
\<close>

theorem events_not_validated_witness:
  "(\<exists>t'. onEnteredFrame (\<lambda>_. []) (Trace None None :: unit trace)
            \<lparr>p_name = Some ''f'', p_location = None, p_parameterNames = None,
              p_callsite = None, p_arguments = None, p_time = Undefined\<rparr> = Inr t'
        \<and> length (t_frames t') = Suc 0
        \<and> f_startTime (t_frames t' ! 0) = Undefined
        \<and> t_endTime t' = Undefined)
   \<and> (\<exists>t1. onEnteredFrame_any (\<lambda>_. Some []) (Trace None None :: unit trace) None
              = Inl (TypeError, t1)
        \<and> length (t_frames t1) = Suc 0
        \<and> t_stack t1 = Some [Sentinel, FrameRef 0])"
  using events_not_validated [of "\<lambda>_. []" "[]" None None "Trace None None :: unit trace"
      "\<lparr>p_name = Some ''f'', p_location = None, p_parameterNames = None,
              p_callsite = None, p_arguments = None, p_time = Undefined\<rparr>" _ "\<lambda>_. Some []" None]
  by (simp add: Trace_def)

text \<open>
  Counterexample to C5 as stated: the enter packet without \<open>time\<close> does not fail; it
  mutates the frame list, the stack, the roots and the function table.
\<close>

theorem events_not_validated_counterexample:
  "(case onEnteredFrame (\<lambda>_. []) (Trace None None :: unit trace)
            \<lparr>p_name = Some ''f'', p_location = None, p_parameterNames = None,
              p_callsite = None, p_arguments = None, p_time = Undefined\<rparr> of
      Inl e \<Rightarrow> False
    | Inr t' \<Rightarrow> t_frames t' \<noteq> t_frames (Trace None None)
              \<and> t_stack t' = Some [Sentinel, FrameRef 0]
              \<and> t_children t' = [0]
              \<and> length (t_functions t') = 1
              \<and> f_startTime (t_frames t' ! 0) = Undefined)"
  by (simp add: model_defs)

subsection \<open>Links set when a frame is entered\<close>

text \<open>
  C7, as the code has it. The top of the stack is never absent (the sentinel is the trace
  object, which is truthy), so on every reachable live trace the new frame gets
  \<open>older\<close> set to the top of the stack, the sentinel included; and whenever the
  children of the top of the stack (the roots of the trace, for the sentinel) are not
  empty, the new frame's \<open>previous\<close> is the last of them and that frame's \<open>next\<close> is
  the new frame. The new frame is appended to those children.
\<close>

theorem enter_links:
  assumes "run str evs (Trace client name) = Inr t" and "t_stack t = Some st"
  shows "\<exists>t'. onEnteredFrame str t p = Inr t'
          \<and> f_older (t_frames t' ! length (t_frames t)) = Some (last st)
          \<and> f_previous (t_frames t' ! length (t_frames t)) =
               (if children_of t (last st) = [] then None
                else Some (last (children_of t (last st))))
          \<and> f_next (t_frames t' ! length (t_frames t)) = None
          \<and> (children_of t (last st) \<noteq> [] \<longrightarrow>
               f_next (t_frames t' ! last (children_of t (last st))) = Some (length (t_frames t)))
          \<and> children_of t' (last st) = children_of t (last st) @ [length (t_frames t)]"
proof -
  from wf_reachable[OF assms(1)] have wf: "wf_trace t" .
  then have sk: "stack_ok t" and so: "store_ok t" by (simp_all add: wf_trace_def)
  from stack_okD[OF sk assms(2)] have r: "ref_ok t (last st)" by blast
  note st = assms(2)
  have e: "onEnteredFrame str t p = Inr (entered str t p)"
    using step_entered[OF wf st, of str p] by simp
  have new: "t_frames (entered str t p) ! length (t_frames t) = entered_frame str t (last st) p"
    by (rule entered_facts(4)[OF st])
  have cs_lt: "c < length (t_frames t)" if "c \<in> set (children_of t (last st))" for c
  proof (cases "last st")
    case Sentinel
    then show ?thesis using that store_ok_rootsD[OF so, of c] by (simp add: children_of_def)
  next
    case (FrameRef i)
    then have "i < length (t_frames t)" using r by (simp add: ref_ok_def)
    from store_okD(2)[OF so this, of c] that FrameRef show ?thesis by (simp add: children_of_def)
  qed
  have nxt: "f_next (t_frames (entered str t p) ! last (children_of t (last st))) = Some (length (t_frames t))"
    if "children_of t (last st) \<noteq> []"
  proof -
    have l: "last (children_of t (last st)) < length (t_frames t)"
      using cs_lt[OF last_in_set[OF that]] .
    show ?thesis
      using that by (simp add: entered_facts(3)[OF st l] entered_frames_nth[OF l])
  qed
  have chd: "children_of (entered str t p) (last st) = children_of t (last st) @ [length (t_frames t)]"
  proof (cases "last st")
    case Sentinel
    then show ?thesis by (simp add: children_of_def entered_facts(7)[OF st])
  next
    case (FrameRef i)
    then have i: "i < length (t_frames t)" using r by (simp add: ref_ok_def)
    show ?thesis using FrameRef
      by (simp add: children_of_def entered_facts(3)[OF st i] entered_old_fields(8)[OF i])
  qed
  show ?thesis
    unfolding e using nxt chd by (simp add: new entered_frame_def Let_def)
qed

text \<open>Witness for C7: the first frame of a new trace.\<close>

theorem enter_links_witness:
  "\<exists>t'. onEnteredFrame (\<lambda>_. []) (Trace None None :: unit trace)
            \<lparr>p_name = Some ''f'', p_location = None, p_parameterNames = None,
              p_callsite = None, p_arguments = None, p_time = Number (Num 0)\<rparr> = Inr t'
        \<and> f_older (t_frames t' ! 0) = Some Sentinel
        \<and> f_previous (t_frames t' ! 0) = None
        \<and> children_of t' Sentinel = [0]"
  using enter_links [of "\<lambda>_. []" "[]" None None "Trace None None :: unit trace" "[Sentinel]"
      "\<lparr>p_name = Some ''f'', p_location = None, p_parameterNames = None,
              p_callsite = None, p_arguments = None, p_time = Number (Num 0)\<rparr>"]
  by (auto simp: Trace_def children_of_def)

text \<open>
  Counterexample to C7 as stated: two root-level frames, both created while the sentinel
  is on top of the stack. Both have an \<open>older\<close> reference (to the sentinel), and they
  are linked by \<open>previous\<close> and \<open>next\<close>.
\<close>

theorem enter_links_counterexample:
  "(case run (\<lambda>_. []) [ent ''f'' (Number (Num 0)), ext (Number (Num 1)), ent ''g'' (Number (Num 2))]
           (Trace None None) of
      Inl e \<Rightarrow> False
    | Inr t \<Rightarrow> t_children t = [0, 1]
             \<and> f_depth (t_frames t ! 1) = 0
             \<and> f_older (t_frames t ! 0) = Some Sentinel
             \<and> f_older (t_frames t ! 1) = Some Sentinel
             \<and> f_previous (t_frames t ! 1) = Some 0
             \<and> f_next (t_frames t ! 0) = Some 1)"
  by (simp add: model_defs)

subsection \<open>The flat list of frames\<close>

text \<open>
  C10. After any sequence of handled events, every frame is stored in \<open>frames\<close> at the
  index equal to its \<open>uid\<close>; so \<open>frameByUid u\<close> is the one frame whose uid is
  \<open>u\<close> for \<open>u\<close> below the length, and \<open>undefined\<close> (no error) from the length on.
\<close>

theorem frames_indexed_by_uid:
  assumes "run str evs (Trace client name) = Inr t"
  shows "(\<forall>u<length (t_frames t).
            f_uid (t_frames t ! u) = u \<and> frameByUid t u = Some (t_frames t ! u)
            \<and> (\<forall>j<length (t_frames t). f_uid (t_frames t ! j) = u \<longrightarrow> j = u))
       \<and> (\<forall>u\<ge>length (t_frames t). frameByUid t u = None)"
proof -
  from wf_reachable[OF assms] have "store_ok t" by (simp add: wf_trace_def)
  then have "\<And>i. i < length (t_frames t) \<Longrightarrow> f_uid (t_frames t ! i) = i"
    by (rule store_okD(1))
  then show ?thesis by (simp add: frameByUid_def)
qed

text \<open>Witness for C10: a trace with one frame.\<close>

theorem frames_indexed_by_uid_witness:
  "f_uid (t_frames (entered (\<lambda>_. []) (Trace None None :: unit trace)
            \<lparr>p_name = Some ''f'', p_location = None, p_parameterNames = None,
              p_callsite = None, p_arguments = None, p_time = Number (Num 0)\<rparr>) ! 0) = 0
   \<and> frameByUid (entered (\<lambda>_. []) (Trace None None :: unit trace)
            \<lparr>p_name = Some ''f'', p_location = None, p_parameterNames = None,
              p_callsite = None, p_arguments = None, p_time = Number (Num 0)\<rparr>) 1 = None"
proof -
  let ?p = "\<lparr>p_name = Some ''f'', p_location = None, p_parameterNames = None,
              p_callsite = None, p_arguments = None, p_time = Number (Num 0)\<rparr> :: unit enter_packet"
  let ?t = "entered (\<lambda>_. []) (Trace None None :: unit trace) ?p"
  have st: "t_stack (Trace None None :: unit trace) = Some [Sentinel]" by (simp add: Trace_def)
  have r: "run (\<lambda>_. []) [EnteredFrame ?p] (Trace None None) = Inr ?t"
    using step_entered[OF wf_Trace st, of "\<lambda>_. []" ?p] by simp
  have len: "length (t_frames ?t) = 1"
    using entered_facts(2)[OF st, where str = "\<lambda>_. []" and p = ?p] by (simp add: Trace_def)
  from frames_indexed_by_uid[OF r] len show ?thesis by simp
qed

subsection \<open>Self time\<close>





subsection \<open>Trace-wide bounds\<close>









section \<open>The visible-range query: binarySearch (trace-graph.js)\<close>

text \<open>
  \<open>x >> 1\<close> converts \<open>x\<close> to a signed 32-bit integer and shifts it; the indices
  are integers, \<open>last\<close> starting at \<open>-1\<close> for an empty array.
\<close>

definition toInt32 :: "int \<Rightarrow> int" where
  "toInt32 x = (x + 2 ^ 31) mod 2 ^ 32 - 2 ^ 31"

definition js_sar1 :: "int \<Rightarrow> int" where
  "js_sar1 x = toInt32 x div 2"

text \<open>
  The loop of \<open>binarySearch\<close>. Reading \<open>array[mid]\<close> outside the array gives
  \<open>undefined\<close>, on which the comparator of the renderer fails (it reads a property of
  it); the loop has no result then.
\<close>

partial_function (option) binarySearch_loop ::
  "'k \<Rightarrow> 'a list \<Rightarrow> ('k \<Rightarrow> 'a \<Rightarrow> jsnum) \<Rightarrow> int \<Rightarrow> int \<Rightarrow> int option" where
  "binarySearch_loop key array comparator first last' =
     (if first \<le> last'
      then (let mid = js_sar1 (first + last')
            in if 0 \<le> mid \<and> mid < int (length array)
               then (let c = comparator key (array ! nat mid)
                     in if js_gt c (Num 0)
                        then binarySearch_loop key array comparator (mid + 1) last'
                        else if js_lt c (Num 0)
                        then binarySearch_loop key array comparator first (mid - 1)
                        else Some mid)
               else None)
      else Some (- (first + 1)))"

definition binarySearch :: "'k \<Rightarrow> 'a list \<Rightarrow> ('k \<Rightarrow> 'a \<Rightarrow> jsnum) \<Rightarrow> int option" where
  "binarySearch key array comparator =
     binarySearch_loop key array comparator 0 (int (length array) - 1)"

text \<open>
  The comparator that \<open>_renderChildren\<close> passes, \<open>time - child.endTime\<close>, and how it
  decodes the result: \<open>if (idx < 0) idx = -(idx + 1)\<close>.
\<close>

definition endTime_comparator :: "jsnum \<Rightarrow> 'v frame \<Rightarrow> jsnum" where
  "endTime_comparator time child = js_sub time (toNumber (f_endTime child))"

definition decode_index :: "int \<Rightarrow> int" where
  "decode_index idx = (if idx < 0 then - (idx + 1) else idx)"

lemma js_sar1_small:
  assumes "0 \<le> x" "x < 2 ^ 31"
  shows "js_sar1 x = x div 2"
proof -
  have "(x + 2 ^ 31) mod 2 ^ 32 = x + 2 ^ 31" using assms by (simp add: mod_pos_pos_trivial)
  then show ?thesis by (simp add: js_sar1_def toInt32_def)
qed

lemma binarySearch_loop_correct:
  fixes fs :: "'v frame list" and es :: "real list"
  assumes es: "map f_endTime fs = map (\<lambda>e. Number (Num e)) es"
    and srt: "sorted es" and small: "length fs < 2 ^ 30"
    and inv: "0 \<le> first" "last' < int (length fs)" "first \<le> last' + 1"
      "\<forall>j<length es. int j < first \<longrightarrow> es ! j < t"
      "\<forall>j<length es. last' < int j \<longrightarrow> t < es ! j"
  shows "\<exists>r. binarySearch_loop (Num t) fs endTime_comparator first last' = Some r
          \<and> ((0 \<le> r \<and> r < int (length fs) \<and> es ! nat r = t)
             \<or> (r < 0 \<and> 0 \<le> - (r + 1) \<and> - (r + 1) \<le> int (length fs)
                 \<and> (\<forall>j<length es. int j < - (r + 1) \<longrightarrow> es ! j < t)
                 \<and> (\<forall>j<length es. - (r + 1) \<le> int j \<longrightarrow> t < es ! j)))"
  using inv
proof (induction "nat (last' - first + 1)" arbitrary: first last' rule: less_induct)
  case less
  have len: "length es = length fs" using es by (metis length_map)
  show ?case
  proof (cases "first \<le> last'")
    case False
    with less.prems(3) have fl: "first = last' + 1" by simp
    have "binarySearch_loop (Num t) fs endTime_comparator first last' = Some (- (first + 1))"
      using False by (subst binarySearch_loop.simps) simp
    moreover have "- (first + 1) < 0" using less.prems(1) by simp
    moreover have "first \<le> int (length fs)" using fl less.prems(2) by simp
    moreover have "\<forall>j<length es. first \<le> int j \<longrightarrow> t < es ! j"
      using less.prems(5) fl by auto
    ultimately show ?thesis using less.prems(1,4) by auto
  next
    case True
    define mid where "mid = (first + last') div 2"
    have sum: "0 \<le> first + last'" "first + last' < 2 ^ 31"
      using True less.prems(1,2) small by simp_all
    have m: "js_sar1 (first + last') = mid" unfolding mid_def by (rule js_sar1_small[OF sum])
    have mr: "first \<le> mid" "mid \<le> last'" using True unfolding mid_def by simp_all
    then have m0: "0 \<le> mid" "mid < int (length fs)" using less.prems(1,2) by simp_all
    then have nm: "nat mid < length fs" by simp
    have e: "f_endTime (fs ! nat mid) = Number (Num (es ! nat mid))"
      using es nm by (metis (no_types, lifting) len nth_map)
    have c: "endTime_comparator (Num t) (fs ! nat mid) = Num (t - es ! nat mid)"
      by (simp add: endTime_comparator_def e js_sub_def)
    have unfold: "binarySearch_loop (Num t) fs endTime_comparator first last' =
        (if es ! nat mid < t then binarySearch_loop (Num t) fs endTime_comparator (mid + 1) last'
         else if t < es ! nat mid then binarySearch_loop (Num t) fs endTime_comparator first (mid - 1)
         else Some mid)"
      using True m0 by (subst binarySearch_loop.simps) (simp add: m c js_gt_def)
    consider (gt) "es ! nat mid < t" | (lt) "t < es ! nat mid" | (eq) "es ! nat mid = t"
      by linarith
    then show ?thesis
    proof cases
      case gt
      have below: "\<forall>j<length es. int j < mid + 1 \<longrightarrow> es ! j < t"
      proof (intro allI impI)
        fix j assume j: "j < length es" "int j < mid + 1"
        then have "j \<le> nat mid" by simp
        then have "es ! j \<le> es ! nat mid" using srt nm len by (simp add: sorted_nth_mono)
        then show "es ! j < t" using gt by simp
      qed
      have "nat (last' - (mid + 1) + 1) < nat (last' - first + 1)" using mr by simp
      from less.hyps[OF this _ less.prems(2) _ below less.prems(5)] mr m0
      show ?thesis unfolding unfold using gt by simp
    next
      case lt
      have above: "\<forall>j<length es. mid - 1 < int j \<longrightarrow> t < es ! j"
      proof (intro allI impI)
        fix j assume j: "j < length es" "mid - 1 < int j"
        then have "nat mid \<le> j" by simp
        then have "es ! nat mid \<le> es ! j" using srt j(1) by (simp add: sorted_nth_mono)
        then show "t < es ! j" using lt by simp
      qed
      have "nat (mid - 1 - first + 1) < nat (last' - first + 1)" using mr by simp
      from less.hyps[OF this less.prems(1) _ _ less.prems(4) above] mr m0
      show ?thesis unfolding unfold using lt by simp
    next
      case eq
      then show ?thesis unfolding unfold using m0 by simp
    qed
  qed
qed

text \<open>
  C4, as the code has it. For a sibling list of fewer than \<open>2^30\<close> frames whose end
  times are finite and sorted in ascending order, and every finite query time \<open>t\<close>,
  \<open>binarySearch\<close> returns a nonnegative index or the encoded miss
  \<open>-(insertionPoint + 1)\<close>, and the decoded index \<open>i\<close> satisfies: every frame before
  \<open>i\<close> has an end time \<open>\<le> t\<close> and every frame from \<open>i\<close> on has an end time
  \<open>\<ge> t\<close>. A nonnegative result is the index of a frame whose end time is \<open>t\<close>. The
  frames before \<open>i\<close> have an end time \<open>< t\<close> when the result is a miss, or when no
  two frames have the same end time; among equal end times the index found need not be the
  leftmost.
\<close>

theorem binarySearch_insertion_point:
  fixes fs :: "'v frame list" and es :: "real list"
  assumes "map f_endTime fs = map (\<lambda>e. Number (Num e)) es"
    and "sorted es" and "length fs < 2 ^ 30"
  shows "\<exists>r. binarySearch (Num t) fs endTime_comparator = Some r
          \<and> 0 \<le> decode_index r \<and> decode_index r \<le> int (length fs)
          \<and> (\<forall>j<length es. int j < decode_index r \<longrightarrow> es ! j \<le> t)
          \<and> (\<forall>j<length es. decode_index r \<le> int j \<longrightarrow> t \<le> es ! j)
          \<and> (0 \<le> r \<longrightarrow> r < int (length fs) \<and> es ! nat r = t)
          \<and> (r < 0 \<or> distinct es \<longrightarrow>
                (\<forall>j<length es. int j < decode_index r \<longrightarrow> es ! j < t))"
proof -
  have len: "length es = length fs" using assms(1) by (metis length_map)
  have "\<exists>r. binarySearch_loop (Num t) fs endTime_comparator 0 (int (length fs) - 1) = Some r
          \<and> ((0 \<le> r \<and> r < int (length fs) \<and> es ! nat r = t)
             \<or> (r < 0 \<and> 0 \<le> - (r + 1) \<and> - (r + 1) \<le> int (length fs)
                 \<and> (\<forall>j<length es. int j < - (r + 1) \<longrightarrow> es ! j < t)
                 \<and> (\<forall>j<length es. - (r + 1) \<le> int j \<longrightarrow> t < es ! j)))"
    by (rule binarySearch_loop_correct[OF assms]) (simp_all add: len)
  then obtain r where r: "binarySearch (Num t) fs endTime_comparator = Some r"
    and post: "(0 \<le> r \<and> r < int (length fs) \<and> es ! nat r = t)
             \<or> (r < 0 \<and> 0 \<le> - (r + 1) \<and> - (r + 1) \<le> int (length fs)
                 \<and> (\<forall>j<length es. int j < - (r + 1) \<longrightarrow> es ! j < t)
                 \<and> (\<forall>j<length es. - (r + 1) \<le> int j \<longrightarrow> t < es ! j))"
    unfolding binarySearch_def by blast
  from post show ?thesis
  proof
    assume hit: "0 \<le> r \<and> r < int (length fs) \<and> es ! nat r = t"
    then have d: "decode_index r = r" by (simp add: decode_index_def)
    from hit have nr: "nat r < length es" unfolding len by linarith
    have lo: "es ! j \<le> t" if "j < length es" "int j < r" for j
    proof -
      from that have "j \<le> nat r" by simp
      then have "es ! j \<le> es ! nat r" using assms(2) nr by (simp add: sorted_nth_mono)
      then show ?thesis using hit by simp
    qed
    have hi: "t \<le> es ! j" if "j < length es" "r \<le> int j" for j
    proof -
      from that have "nat r \<le> j" by simp
      then have "es ! nat r \<le> es ! j" using assms(2) that(1) by (simp add: sorted_nth_mono)
      then show ?thesis using hit by simp
    qed
    have strict: "es ! j < t" if "distinct es" "j < length es" "int j < r" for j
    proof -
      from that(3) hit have jr: "j < nat r" by simp
      then have "es ! j \<noteq> es ! nat r" using that(1,2) nr by (simp add: nth_eq_iff_index_eq)
      with lo[OF that(2,3)] hit show ?thesis by simp
    qed
    show ?thesis by (rule exI[of _ r]) (use r hit lo hi strict in \<open>auto simp: d\<close>)
  next
    assume miss: "r < 0 \<and> 0 \<le> - (r + 1) \<and> - (r + 1) \<le> int (length fs)
                 \<and> (\<forall>j<length es. int j < - (r + 1) \<longrightarrow> es ! j < t)
                 \<and> (\<forall>j<length es. - (r + 1) \<le> int j \<longrightarrow> t < es ! j)"
    then have d: "decode_index r = - (r + 1)" by (simp add: decode_index_def)
    have "\<forall>j<length es. int j < - (r + 1) \<longrightarrow> es ! j \<le> t" using miss by fastforce
    moreover have "\<forall>j<length es. - (r + 1) \<le> int j \<longrightarrow> t \<le> es ! j" using miss by fastforce
    ultimately show ?thesis by (intro exI[of _ r]) (use r miss in \<open>simp add: d\<close>)
  qed
qed

text \<open>Frames for the examples: all fields empty but the end time.\<close>

definition frame_ending :: "real \<Rightarrow> unit frame" where
  "frame_ending e = (new_frame 0 0)\<lparr>f_endTime := Number (Num e)\<rparr>"

lemmas search_defs = binarySearch_def binarySearch_loop.simps js_sar1_def toInt32_def
  endTime_comparator_def frame_ending_def new_frame_def js_sub_def js_gt_def decode_index_def

text \<open>Witness for C4: end times 1, 3, 5 queried at 4 give the miss \<open>-3\<close>, index 2.\<close>

theorem binarySearch_insertion_point_witness:
  "binarySearch (Num 4) [frame_ending 1, frame_ending 3, frame_ending 5] endTime_comparator
     = Some (- 3)
   \<and> decode_index (- 3) = 2"
proof -
  have m: "map f_endTime [frame_ending 1, frame_ending 3, frame_ending 5]
           = map (\<lambda>e. Number (Num e)) [1, 3, 5]"
    by (simp add: frame_ending_def)
  from binarySearch_insertion_point[OF m, of 4] obtain r where
    r: "binarySearch (Num 4) [frame_ending 1, frame_ending 3, frame_ending 5] endTime_comparator
          = Some r"
      "0 \<le> decode_index r" "decode_index r \<le> 3"
      "\<forall>j<3. int j < decode_index r \<longrightarrow> [1, 3, 5 :: real] ! j \<le> 4"
      "\<forall>j<3. decode_index r \<le> int j \<longrightarrow> 4 \<le> [1, 3, 5 :: real] ! j"
      "0 \<le> r \<longrightarrow> r < 3 \<and> [1, 3, 5 :: real] ! nat r = 4"
    by auto
  from r(4)[rule_format, of 2] have "\<not> 2 < decode_index r" by auto
  moreover from r(5)[rule_format, of 1] have "\<not> decode_index r \<le> 1" by auto
  ultimately have d: "decode_index r = 2" by linarith
  have "r < 0"
  proof (rule ccontr)
    assume "\<not> r < 0"
    with d have "r = 2" by (simp add: decode_index_def)
    with r(6) show False by simp
  qed
  with d have "r = - 3" by (simp add: decode_index_def)
  with r(1) d show ?thesis by simp
qed

text \<open>
  Counterexample to C4 as stated: three siblings that all end at 3, queried at 3. The
  search returns the middle index 1, and the frame at position 0, before it, does not have
  an end time \<open>< 3\<close>. And a query time that is not a number (the left edge of the
  viewport is \<open>NaN\<close> while the total time of the bounds is \<open>undefined\<close>) compares
  neither above nor below any end time: on the end times 1, 3, 5 the search returns the
  middle index 1 as a match, with the frame at position 1 and the frames after it not
  \<open>\<ge> NaN\<close>.
\<close>

theorem binarySearch_insertion_point_counterexample:
  "binarySearch (Num 3) [frame_ending 3, frame_ending 3, frame_ending 3] endTime_comparator
     = Some 1
   \<and> decode_index 1 = 1
   \<and> f_endTime ([frame_ending 3, frame_ending 3, frame_ending 3] ! 0) = Number (Num 3)
   \<and> \<not> js_lt (toNumber (f_endTime ([frame_ending 3, frame_ending 3, frame_ending 3] ! 0)))
              (Num 3)
   \<and> binarySearch NaN [frame_ending 1, frame_ending 3, frame_ending 5] endTime_comparator
     = Some 1
   \<and> \<not> js_gt (toNumber (f_endTime ([frame_ending 1, frame_ending 3, frame_ending 5] ! 1))) NaN
   \<and> toNumber (f_endTime ([frame_ending 1, frame_ending 3, frame_ending 5] ! 1)) \<noteq> NaN"
  by (simp add: search_defs)

section \<open>Serialization and re-ingestion (toJSON, parseTrace)\<close>

text \<open>
  \<open>toJSON\<close> builds a plain object and hands it to \<open>JSON.stringify\<close>; \<open>parseTrace\<close>
  reads such a document back and replays it. The document is modelled as structured data:
  a time is written as a number, as \<open>null\<close> when it is \<open>null\<close>, \<open>NaN\<close> or
  infinite, and is left out when it is \<open>undefined\<close>. The values of type \<open>'v\<close>
  (locations, parameter names, arguments, returned, thrown and yielded values) are JSON
  data that \<open>JSON.parse\<close> gives back as \<open>JSON.stringify\<close> received them. Two equal
  documents are written as the same string, the properties being written in the same
  order by the same code.
\<close>

datatype jnumber = JNull | JNum real

fun json_number :: "jsnum \<Rightarrow> jnumber" where
  "json_number (Num x) = JNum x"
| "json_number a = JNull"

fun json_time :: "jsval \<Rightarrow> jnumber option" where
  "json_time Undefined = None"
| "json_time Null = Some JNull"
| "json_time (Number a) = Some (json_number a)"

fun parse_time :: "jnumber option \<Rightarrow> jsval" where
  "parse_time None = Undefined"
| "parse_time (Some JNull) = Null"
| "parse_time (Some (JNum x)) = Number (Num x)"

datatype 'v jframe =
  JFrame (j_fid: "nat option") (j_startTime: "jnumber option") (j_endTime: "jnumber option")
    (j_arguments: "'v option") (j_return: "'v option") (j_throw: "'v option")
    (j_yield: "'v option") (j_children: "'v jframe list")

record 'v jfunction =
  jf_count :: nat
  jf_name :: "string option"
  jf_location :: "'v option"
  jf_parameterNames :: "'v option"
  jf_totalTime :: "jnumber option"
  jf_selfTime :: "jnumber option"

record 'v json_trace =
  j_functions :: "'v jfunction list"
  j_roots :: "'v jframe list"

text \<open>
  \<open>_frameToJSONObj\<close> follows the children of a frame. Its recursion is bounded here by
  the number of frames of the trace, which is enough on every trace that ingestion builds
  (lemma \<open>toJSON_ingested\<close>); the result is \<open>None\<close> when the bound is exceeded or a
  child does not exist.
\<close>

fun frameToJSONObj :: "nat \<Rightarrow> 'v frame list \<Rightarrow> nat \<Rightarrow> 'v jframe option" where
  "frameToJSONObj 0 fs u = None"
| "frameToJSONObj (Suc fuel) fs u =
     (if u < length fs
      then (let frame = fs ! u
            in map_option
                 (JFrame (f_fid frame) (json_time (f_startTime frame))
                    (json_time (f_endTime frame)) (f_arguments frame) (f_return frame)
                    (f_throw frame) (f_yield frame))
                 (those (map (frameToJSONObj fuel fs) (f_children frame))))
      else None)"

definition functionToJSON :: "'v aggregated \<Rightarrow> 'v jfunction" where
  "functionToJSON a =
     \<lparr>jf_count = a_count a, jf_name = a_name a, jf_location = a_location a,
      jf_parameterNames = a_parameterNames a,
      jf_totalTime = map_option json_number (a_totalTime a),
      jf_selfTime = map_option json_number (a_selfTime a)\<rparr>"

definition toJSON :: "'v trace \<Rightarrow> 'v json_trace option" where
  "toJSON t =
     map_option (\<lambda>roots. \<lparr>j_functions = map functionToJSON (t_functions t), j_roots = roots\<rparr>)
       (those (map (frameToJSONObj (length (t_frames t)) (t_frames t)) (t_children t)))"

text \<open>
  \<open>parseTrace\<close>: a node whose \<open>fid\<close> has no entry in \<open>functions\<close> makes
  \<open>aggregated.name\<close> fail with a \<open>TypeError\<close>. The document has no \<open>callsite\<close>.
\<close>

definition exitFrame :: "'v trace \<Rightarrow> 'v jframe \<Rightarrow> 'v result" where
  "exitFrame t frame =
     onExitedFrame t \<lparr>q_time = parse_time (j_endTime frame), q_return = j_return frame,
                       q_throw = j_throw frame, q_yield = j_yield frame\<rparr>"

fun enterFrame ::
    "('v \<Rightarrow> string) \<Rightarrow> 'v jfunction list \<Rightarrow> 'v trace \<Rightarrow> 'v jframe \<Rightarrow> 'v result"
  and enterFrames ::
    "('v \<Rightarrow> string) \<Rightarrow> 'v jfunction list \<Rightarrow> 'v trace \<Rightarrow> 'v jframe list \<Rightarrow> 'v result" where
  "enterFrame stringify functions t (JFrame fid startTime endTime arguments ret thr yld children) =
     (case (case fid of None \<Rightarrow> None
            | Some k \<Rightarrow> if k < length functions then Some (functions ! k) else None) of
        None \<Rightarrow> Inl (TypeError, t)
      | Some aggregated \<Rightarrow>
          (case onEnteredFrame stringify t
                  \<lparr>p_name = jf_name aggregated, p_location = jf_location aggregated,
                   p_parameterNames = jf_parameterNames aggregated, p_callsite = None,
                   p_arguments = arguments, p_time = parse_time startTime\<rparr> of
             Inl e \<Rightarrow> Inl e
           | Inr t \<Rightarrow>
               (case enterFrames stringify functions t children of
                  Inl e \<Rightarrow> Inl e
                | Inr t \<Rightarrow>
                    exitFrame t (JFrame fid startTime endTime arguments ret thr yld children))))"
| "enterFrames stringify functions t [] = Inr t"
| "enterFrames stringify functions t (child # children) =
     (case enterFrame stringify functions t child of
        Inl e \<Rightarrow> Inl e
      | Inr t \<Rightarrow> enterFrames stringify functions t children)"

definition parseTrace :: "('v \<Rightarrow> string) \<Rightarrow> 'v json_trace \<Rightarrow> 'v result" where
  "parseTrace stringify data =
     (case enterFrames stringify (j_functions data) (Trace None None) (j_roots data) of
        Inl e \<Rightarrow> Inl e
      | Inr trace \<Rightarrow> Inr (trace\<lparr>t_finished := True\<rparr>))"

subsection \<open>Well-nested events as call trees\<close>

text \<open>
  A call is an enter packet, the calls made before its exit, and the exit packet. The
  events of a forest of calls are its flattening; ingestion stores the calls in the order
  of their enter events, so that the call at position \<open>r\<close> of the flat list of frames
  has its first child at \<open>r + 1\<close> and its next sibling after all its descendants.
  \<open>ok_call fs r c\<close> says that the frames \<open>fs\<close> hold the call \<open>c\<close> from
  position \<open>r\<close> on.
\<close>

datatype 'v call = Call "'v enter_packet" "'v call list" "'v exit_packet"

fun flatten_call :: "'v call \<Rightarrow> 'v event list"
  and flatten_calls :: "'v call list \<Rightarrow> 'v event list" where
  "flatten_call (Call p cs q) = EnteredFrame p # flatten_calls cs @ [ExitedFrame q]"
| "flatten_calls [] = []"
| "flatten_calls (c # cs) = flatten_call c @ flatten_calls cs"

fun size_call :: "'v call \<Rightarrow> nat" and size_calls :: "'v call list \<Rightarrow> nat" where
  "size_call (Call p cs q) = Suc (size_calls cs)"
| "size_calls [] = 0"
| "size_calls (c # cs) = size_call c + size_calls cs"

fun positions :: "nat \<Rightarrow> 'v call list \<Rightarrow> nat list" where
  "positions r [] = []"
| "positions r (c # cs) = r # positions (r + size_call c) cs"

fun ok_call :: "'v frame list \<Rightarrow> nat \<Rightarrow> 'v call \<Rightarrow> bool"
  and ok_calls :: "'v frame list \<Rightarrow> nat \<Rightarrow> 'v call list \<Rightarrow> bool" where
  "ok_call fs r (Call p cs q) =
     (r < length fs
      \<and> f_startTime (fs ! r) = p_time p \<and> f_arguments (fs ! r) = p_arguments p
      \<and> f_endTime (fs ! r) = q_time q \<and> f_return (fs ! r) = q_return q
      \<and> f_throw (fs ! r) = q_throw q \<and> f_yield (fs ! r) = q_yield q
      \<and> f_children (fs ! r) = positions (Suc r) cs
      \<and> ok_calls fs (Suc r) cs)"
| "ok_calls fs r [] = True"
| "ok_calls fs r (c # cs) = (ok_call fs r c \<and> ok_calls fs (r + size_call c) cs)"

text \<open>
  Ingesting later events changes, in a frame that exists, its \<open>next\<close> link and its
  list of children only.
\<close>

definition core :: "'v frame \<Rightarrow> 'v frame" where
  "core f = f\<lparr>f_next := None, f_children := []\<rparr>"

lemma core_fields:
  "f_fid (core f) = f_fid f" "f_startTime (core f) = f_startTime f"
  "f_endTime (core f) = f_endTime f" "f_arguments (core f) = f_arguments f"
  "f_return (core f) = f_return f" "f_throw (core f) = f_throw f"
  "f_yield (core f) = f_yield f" "f_totalTime (core f) = f_totalTime f"
  "f_aggregated (core f) = f_aggregated f" "f_callsite (core f) = f_callsite f"
  by (simp_all add: core_def)

lemma core_eqD:
  assumes "core f = core g"
  shows "f_fid f = f_fid g" "f_startTime f = f_startTime g" "f_endTime f = f_endTime g"
    "f_arguments f = f_arguments g" "f_return f = f_return g" "f_throw f = f_throw g"
    "f_yield f = f_yield g" "f_totalTime f = f_totalTime g" "f_aggregated f = f_aggregated g"
  using arg_cong[OF assms, of f_fid] arg_cong[OF assms, of f_startTime]
    arg_cong[OF assms, of f_endTime] arg_cong[OF assms, of f_arguments]
    arg_cong[OF assms, of f_return] arg_cong[OF assms, of f_throw]
    arg_cong[OF assms, of f_yield] arg_cong[OF assms, of f_totalTime]
    arg_cong[OF assms, of f_aggregated]
  by (simp_all add: core_fields)

lemma entered_core:
  "i < length (t_frames t) \<Longrightarrow> core (entered_frames t cur ! i) = core (t_frames t ! i)"
  by (simp add: entered_frames_nth core_def)

lemma ok_stable:
  fixes fs fs' :: "'v frame list"
  shows "ok_call fs r c \<Longrightarrow>
     (\<And>i. r \<le> i \<Longrightarrow> i < r + size_call c \<Longrightarrow>
        i < length fs' \<and> core (fs' ! i) = core (fs ! i) \<and> f_children (fs' ! i) = f_children (fs ! i))
     \<Longrightarrow> ok_call fs' r c"
    and "ok_calls fs r cs \<Longrightarrow>
     (\<And>i. r \<le> i \<Longrightarrow> i < r + size_calls cs \<Longrightarrow>
        i < length fs' \<and> core (fs' ! i) = core (fs ! i) \<and> f_children (fs' ! i) = f_children (fs ! i))
     \<Longrightarrow> ok_calls fs' r cs"
proof (induction fs r c and fs r cs rule: ok_call_ok_calls.induct)
  case (1 fs r p cs q)
  from "1.prems"(2)[of r] have r: "r < length fs'" "core (fs' ! r) = core (fs ! r)"
    "f_children (fs' ! r) = f_children (fs ! r)" by simp_all
  have "ok_calls fs' (Suc r) cs"
  proof (rule "1.IH")
    show "ok_calls fs (Suc r) cs" using "1.prems"(1) by simp
    fix i assume "Suc r \<le> i" "i < Suc r + size_calls cs"
    then show "i < length fs' \<and> core (fs' ! i) = core (fs ! i) \<and> f_children (fs' ! i) = f_children (fs ! i)"
      using "1.prems"(2)[of i] by simp
  qed
  then show ?case using "1.prems"(1) r core_eqD[OF r(2)] by simp
next
  case (2 fs r)
  then show ?case by simp
next
  case (3 fs r c cs)
  have "ok_call fs' r c"
  proof (rule "3.IH"(1))
    show "ok_call fs r c" using "3.prems"(1) by simp
    fix i assume "r \<le> i" "i < r + size_call c"
    then show "i < length fs' \<and> core (fs' ! i) = core (fs ! i) \<and> f_children (fs' ! i) = f_children (fs ! i)"
      using "3.prems"(2)[of i] by simp
  qed
  moreover have "ok_calls fs' (r + size_call c) cs"
  proof (rule "3.IH"(2))
    show "ok_calls fs (r + size_call c) cs" using "3.prems"(1) by simp
    fix i assume "r + size_call c \<le> i" "i < r + size_call c + size_calls cs"
    then show "i < length fs' \<and> core (fs' ! i) = core (fs ! i) \<and> f_children (fs' ! i) = f_children (fs ! i)"
      using "3.prems"(2)[of i] by simp
  qed
  ultimately show ?case by simp
qed

text \<open>
  \<open>grown s s' cur new\<close>: from \<open>s\<close> to \<open>s'\<close> the stack is back where it was, the
  object \<open>cur\<close> at its top has the children \<open>new\<close> in addition, and the other frames
  of \<open>s\<close> are as they were up to their \<open>next\<close> link.
\<close>

definition grown :: "'v trace \<Rightarrow> 'v trace \<Rightarrow> ref \<Rightarrow> nat list \<Rightarrow> bool" where
  "grown s s' cur new =
     (t_stack s' = t_stack s
      \<and> children_of s' cur = children_of s cur @ new
      \<and> (\<forall>i<length (t_frames s).
            core (t_frames s' ! i) = core (t_frames s ! i)
            \<and> (FrameRef i \<noteq> cur \<longrightarrow> f_children (t_frames s' ! i) = f_children (t_frames s ! i)))
      \<and> (cur \<noteq> Sentinel \<longrightarrow> t_children s' = t_children s))"

lemma grownD:
  assumes "grown s s' cur new"
  shows "t_stack s' = t_stack s"
    and "children_of s' cur = children_of s cur @ new"
    and "\<And>i. i < length (t_frames s) \<Longrightarrow> core (t_frames s' ! i) = core (t_frames s ! i)"
    and "\<And>i. i < length (t_frames s) \<Longrightarrow> FrameRef i \<noteq> cur
           \<Longrightarrow> f_children (t_frames s' ! i) = f_children (t_frames s ! i)"
    and "cur \<noteq> Sentinel \<Longrightarrow> t_children s' = t_children s"
  using assms unfolding grown_def by blast+

lemma grownI:
  assumes "t_stack s' = t_stack s"
    and "children_of s' cur = children_of s cur @ new"
    and "\<And>i. i < length (t_frames s) \<Longrightarrow> core (t_frames s' ! i) = core (t_frames s ! i)"
    and "\<And>i. i < length (t_frames s) \<Longrightarrow> FrameRef i \<noteq> cur
           \<Longrightarrow> f_children (t_frames s' ! i) = f_children (t_frames s ! i)"
    and "cur \<noteq> Sentinel \<Longrightarrow> t_children s' = t_children s"
  shows "grown s s' cur new"
  using assms unfolding grown_def by blast

lemma exited_frame_more_fields:
  shows "f_fid (exited_frame t i q) = f_fid (t_frames t ! i)"
    and "f_arguments (exited_frame t i q) = f_arguments (t_frames t ! i)"
    and "f_return (exited_frame t i q) = (if q_return q \<noteq> None then q_return q else f_return (t_frames t ! i))"
    and "f_throw (exited_frame t i q) = (if q_throw q \<noteq> None then q_throw q else f_throw (t_frames t ! i))"
    and "f_yield (exited_frame t i q) = (if q_yield q \<noteq> None then q_yield q else f_yield (t_frames t ! i))"
    and "f_callsite (exited_frame t i q) = f_callsite (t_frames t ! i)"
  by (simp_all add: exited_frame_def)

lemma grown_refl: "grown s s cur []"
  by (rule grownI) simp_all

lemma grown_trans:
  assumes a: "grown s s1 cur xs" and b: "grown s1 s2 cur ys"
    and len: "length (t_frames s) \<le> length (t_frames s1)"
  shows "grown s s2 cur (xs @ ys)"
proof (rule grownI)
  show "t_stack s2 = t_stack s" using grownD(1)[OF a] grownD(1)[OF b] by simp
  show "children_of s2 cur = children_of s cur @ xs @ ys"
    using grownD(2)[OF a] grownD(2)[OF b] by simp
  show "core (t_frames s2 ! i) = core (t_frames s ! i)" if "i < length (t_frames s)" for i
    using grownD(3)[OF a that] grownD(3)[OF b, of i] that len by simp
  show "f_children (t_frames s2 ! i) = f_children (t_frames s ! i)"
    if "i < length (t_frames s)" "FrameRef i \<noteq> cur" for i
    using grownD(4)[OF a that] grownD(4)[OF b, of i] that len by simp
  show "t_children s2 = t_children s" if "cur \<noteq> Sentinel"
    using grownD(5)[OF a that] grownD(5)[OF b that] by simp
qed

text \<open>Ingesting the events of a forest of calls lays it out in the list of frames.\<close>

lemma ingest_calls:
  fixes s :: "'v trace"
  shows "wf_trace s \<Longrightarrow> t_stack s = Some st \<Longrightarrow>
      \<exists>s'. run str (flatten_call c) s = Inr s'
         \<and> length (t_frames s') = length (t_frames s) + size_call c
         \<and> grown s s' (last st) [length (t_frames s)]
         \<and> ok_call (t_frames s') (length (t_frames s)) c"
    and "wf_trace s \<Longrightarrow> t_stack s = Some st \<Longrightarrow>
      \<exists>s'. run str (flatten_calls cs) s = Inr s'
         \<and> length (t_frames s') = length (t_frames s) + size_calls cs
         \<and> grown s s' (last st) (positions (length (t_frames s)) cs)
         \<and> ok_calls (t_frames s') (length (t_frames s)) cs"
proof (induction c and cs arbitrary: s st and s st rule: flatten_call_flatten_calls.induct)
  case (1 p cs q)
  note wf = "1.prems"(1) and st = "1.prems"(2)
  define n where "n = length (t_frames s)"
  define cur where "cur = last st"
  from wf have sk: "stack_ok s" by (simp add: wf_trace_def)
  from stack_okD[OF sk st] have ne: "st \<noteq> []" and r: "ref_ok s cur"
    unfolding cur_def by blast+
  define sa where "sa = entered str s p"
  have e1: "step str s (EnteredFrame p) = Inr sa" unfolding sa_def by (rule step_entered[OF wf st])
  have wfa: "wf_trace sa" unfolding sa_def by (rule wf_entered[OF wf st])
  note ef = entered_facts[OF st, where str = str and p = p, folded sa_def n_def cur_def]
  have sta: "t_stack sa = Some (st @ [FrameRef n])" by (rule ef(5))
  from "1.IH"[OF wfa sta] obtain sb where
    rb: "run str (flatten_calls cs) sa = Inr sb"
    and lenb: "length (t_frames sb) = length (t_frames sa) + size_calls cs"
    and gab: "grown sa sb (FrameRef n) (positions (length (t_frames sa)) cs)"
    and okb: "ok_calls (t_frames sb) (length (t_frames sa)) cs"
    by auto
  have lena: "length (t_frames sa) = Suc n" by (rule ef(2))
  have wfb: "wf_trace sb" by (rule wf_run[OF wfa rb])
  have stb: "t_stack sb = Some (st @ [FrameRef n])" using grownD(1)[OF gab] sta by simp
  have top: "last (st @ [FrameRef n]) = FrameRef n" by simp
  from step_exited[OF wfb stb top, of str q] obtain k where
    nb: "n < length (t_frames sb)" and e3: "step str sb (ExitedFrame q) = Inr (exited sb n k q)"
    by blast
  define sc where "sc = exited sb n k q"
  note xf = exited_facts[OF stb, where i = n and k = k and q = q, folded sc_def]
  have run_all: "run str (flatten_call (Call p cs q)) s = Inr sc"
    using e1 rb e3 by (simp add: run_append sc_def)
  have len_c: "length (t_frames sc) = length (t_frames s) + size_call (Call p cs q)"
    by (simp add: xf(2) lenb lena n_def)
  have frame_n: "t_frames sc ! n = exited_frame sb n q" by (rule xf(8)[OF nb])
  have core_bn: "core (t_frames sb ! n) = core (entered_frame str s cur p)"
    using grownD(3)[OF gab, of n] by (simp add: lena ef(4))
  have ch_bn: "f_children (t_frames sb ! n) = positions (Suc n) cs"
    using grownD(2)[OF gab] by (simp add: children_of_def ef(4) lena entered_frame_def Let_def)
  note cb = core_eqD[OF core_bn]
  have ok: "ok_call (t_frames sc) n (Call p cs q)"
  proof -
    have "ok_calls (t_frames sc) (Suc n) cs"
    proof (rule ok_stable(2))
      show "ok_calls (t_frames sb) (Suc n) cs" using okb by (simp add: lena)
      fix i assume "Suc n \<le> i" "i < Suc n + size_calls cs"
      then have "i \<noteq> n" "i < length (t_frames sc)" by (simp_all add: xf(2) lenb lena)
      then show "i < length (t_frames sc) \<and> core (t_frames sc ! i) = core (t_frames sb ! i)
          \<and> f_children (t_frames sc ! i) = f_children (t_frames sb ! i)"
        by (simp add: xf(7))
    qed
    then show ?thesis
      using nb
      by (simp add: xf(2) frame_n exited_frame_fields exited_frame_more_fields cb ch_bn
          entered_frame_def Let_def)
  qed
  have old_core: "core (t_frames sc ! i) = core (t_frames s ! i)" if "i < n" for i
  proof -
    have "core (t_frames sc ! i) = core (t_frames sb ! i)" using that by (simp add: xf(7))
    also have "\<dots> = core (t_frames sa ! i)" using grownD(3)[OF gab, of i] that lena by simp
    also have "\<dots> = core (t_frames s ! i)"
      using that by (simp add: ef(3) entered_core n_def)
    finally show ?thesis .
  qed
  have old_children: "f_children (t_frames sc ! i) =
        (if cur = FrameRef i then f_children (t_frames s ! i) @ [n] else f_children (t_frames s ! i))"
    if "i < n" for i
  proof -
    have "f_children (t_frames sc ! i) = f_children (t_frames sb ! i)" using that by (simp add: xf(7))
    also have "\<dots> = f_children (t_frames sa ! i)"
      using grownD(4)[OF gab, of i] that lena by simp
    also have "\<dots> = (if cur = FrameRef i then f_children (t_frames s ! i) @ [n]
                       else f_children (t_frames s ! i))"
      using that by (simp add: ef(3) entered_old_fields(8) n_def)
    finally show ?thesis .
  qed
  have roots: "t_children sc = (if cur = Sentinel then t_children s @ [n] else t_children s)"
    using grownD(5)[OF gab] by (simp add: xf(6) ef(7))
  have g: "grown s sc cur [n]"
  proof (rule grownI)
    show "t_stack sc = t_stack s" by (simp add: xf(3) st)
    show "children_of sc cur = children_of s cur @ [n]"
    proof (cases cur)
      case Sentinel
      then show ?thesis by (simp add: children_of_def roots)
    next
      case (FrameRef i)
      then have "i < n" using r by (simp add: ref_ok_def n_def)
      then show ?thesis using FrameRef by (simp add: children_of_def old_children)
    qed
    show "core (t_frames sc ! i) = core (t_frames s ! i)" if "i < length (t_frames s)" for i
      using that old_core by (simp add: n_def)
    show "f_children (t_frames sc ! i) = f_children (t_frames s ! i)"
      if "i < length (t_frames s)" "FrameRef i \<noteq> cur" for i
      using that old_children[of i] by (auto simp: n_def)
    show "t_children sc = t_children s" if "cur \<noteq> Sentinel"
      using that roots by simp
  qed
  show ?case using run_all len_c g ok unfolding n_def cur_def by blast
next
  case (2 s st)
  then show ?case by (simp add: grown_refl)
next
  case (3 c cs)
  note wf = "3.prems"(1) and st = "3.prems"(2)
  define n where "n = length (t_frames s)"
  from wf have sk: "stack_ok s" by (simp add: wf_trace_def)
  from stack_okD[OF sk st] have r: "ref_ok s (last st)" by blast
  from "3.IH"(1)[OF wf st] obtain s1 where
    r1: "run str (flatten_call c) s = Inr s1"
    and len1: "length (t_frames s1) = n + size_call c"
    and g1: "grown s s1 (last st) [n]"
    and ok1: "ok_call (t_frames s1) n c"
    unfolding n_def by blast
  have wf1: "wf_trace s1" by (rule wf_run[OF wf r1])
  have st1: "t_stack s1 = Some st" using grownD(1)[OF g1] st by simp
  from "3.IH"(2)[OF wf1 st1] obtain s2 where
    r2: "run str (flatten_calls cs) s1 = Inr s2"
    and len2: "length (t_frames s2) = length (t_frames s1) + size_calls cs"
    and g2: "grown s1 s2 (last st) (positions (length (t_frames s1)) cs)"
    and ok2: "ok_calls (t_frames s2) (length (t_frames s1)) cs"
    by blast
  have run_all: "run str (flatten_calls (c # cs)) s = Inr s2"
    using r1 r2 by (simp add: run_append)
  have len: "length (t_frames s2) = n + size_calls (c # cs)" using len1 len2 by simp
  have g: "grown s s2 (last st) (positions n (c # cs))"
    using grown_trans[OF g1 g2] len1 by (simp add: n_def)
  have "ok_call (t_frames s2) n c"
  proof (rule ok_stable(1)[OF ok1])
    fix i assume i: "n \<le> i" "i < n + size_call c"
    then have il: "i < length (t_frames s1)" using len1 by simp
    have "FrameRef i \<noteq> last st"
    proof
      assume "FrameRef i = last st"
      then have "ref_ok s (FrameRef i)" using r by simp
      then show False using i(1) by (simp add: ref_ok_def n_def)
    qed
    then show "i < length (t_frames s2) \<and> core (t_frames s2 ! i) = core (t_frames s1 ! i)
        \<and> f_children (t_frames s2 ! i) = f_children (t_frames s1 ! i)"
      using grownD(3)[OF g2 il] grownD(4)[OF g2 il] il len2 by simp
  qed
  then have ok: "ok_calls (t_frames s2) n (c # cs)" using ok2 len1 by simp
  show ?case using run_all len g ok unfolding n_def by blast
qed

subsection \<open>The document of an ingested forest\<close>

fun json_call :: "'v frame list \<Rightarrow> nat \<Rightarrow> 'v call \<Rightarrow> 'v jframe"
  and json_calls :: "'v frame list \<Rightarrow> nat \<Rightarrow> 'v call list \<Rightarrow> 'v jframe list" where
  "json_call fs r (Call p cs q) =
     JFrame (f_fid (fs ! r)) (json_time (p_time p)) (json_time (q_time q)) (p_arguments p)
       (q_return q) (q_throw q) (q_yield q) (json_calls fs (Suc r) cs)"
| "json_calls fs r [] = []"
| "json_calls fs r (c # cs) = json_call fs r c # json_calls fs (r + size_call c) cs"

lemma frameToJSONObj_ok:
  shows "ok_call fs r c \<Longrightarrow> size_call c \<le> fuel \<Longrightarrow>
           frameToJSONObj fuel fs r = Some (json_call fs r c)"
    and "ok_calls fs r cs \<Longrightarrow> size_calls cs \<le> fuel \<Longrightarrow>
           those (map (frameToJSONObj fuel fs) (positions r cs)) = Some (json_calls fs r cs)"
proof (induction fs r c and fs r cs arbitrary: fuel and fuel rule: json_call_json_calls.induct)
  case (1 fs r p cs q)
  from "1.prems"(2) obtain fuel' where fuel: "fuel = Suc fuel'" "size_calls cs \<le> fuel'"
    by (cases fuel) simp_all
  from "1.prems"(1) have ok: "ok_calls fs (Suc r) cs" by simp
  from "1.IH"[OF ok fuel(2)] "1.prems"(1) show ?case
    by (simp add: fuel(1) Let_def)
next
  case (2 fs r)
  then show ?case by simp
next
  case (3 fs r c cs)
  from "3.prems" have a: "ok_call fs r c" "size_call c \<le> fuel"
    and b: "ok_calls fs (r + size_call c) cs" "size_calls cs \<le> fuel" by simp_all
  from "3.IH"(1)[OF a] "3.IH"(2)[OF b] show ?case by simp
qed

lemma toJSON_ok:
  assumes "ok_calls (t_frames t) 0 cs" "t_children t = positions 0 cs"
    "size_calls cs \<le> length (t_frames t)"
  shows "toJSON t = Some \<lparr>j_functions = map functionToJSON (t_functions t),
                          j_roots = json_calls (t_frames t) 0 cs\<rparr>"
  using frameToJSONObj_ok(2)[OF assms(1,3)] by (simp add: toJSON_def assms(2))

lemma toJSON_ingested:
  fixes cs :: "'v call list"
  assumes "run str (flatten_calls cs) (Trace client name) = Inr t"
  shows "toJSON t = Some \<lparr>j_functions = map functionToJSON (t_functions t),
                          j_roots = json_calls (t_frames t) 0 cs\<rparr>"
proof -
  let ?T = "Trace client name :: 'v trace"
  have st: "t_stack ?T = Some [Sentinel]" by (simp add: Trace_def)
  have l0: "length (t_frames ?T) = 0" by (simp add: Trace_def)
  from ingest_calls(2)[OF wf_Trace st, of str cs] assms obtain
    len: "length (t_frames t) = size_calls cs"
    and g: "grown ?T t Sentinel (positions 0 cs)"
    and ok: "ok_calls (t_frames t) 0 cs"
    unfolding l0 by auto
  have "t_children t = positions 0 cs"
    using grownD(2)[OF g] by (simp add: children_of_def Trace_def)
  from toJSON_ok[OF ok this] len show ?thesis by simp
qed

subsection \<open>What later events leave alone\<close>

lemma step_cases:
  assumes wf: "wf_trace t" and s: "step str t e = Inr t'"
  obtains (enter) st p where "t_stack t = Some st" "e = EnteredFrame p" "t' = entered str t p"
    | (underflow) q where "t_stack t = Some [Sentinel]" "e = ExitedFrame q" "finish t = Inr t'"
    | (exit) st i k q where "t_stack t = Some st" "last st = FrameRef i" "e = ExitedFrame q"
        "i < length (t_frames t)" "f_aggregated (t_frames t ! i) = Some k"
        "k < length (t_functions t)" "t' = exited t i k q"
proof (cases "t_stack t")
  case None
  then show ?thesis using s by (simp add: step_finished)
next
  case (Some st)
  from wf have sk: "stack_ok t" by (simp add: wf_trace_def)
  from stack_okD[OF sk Some] obtain us where us: "st = Sentinel # map FrameRef us"
    "last st = (if us = [] then Sentinel else FrameRef (last us))" and ne: "st \<noteq> []" by blast
  show ?thesis
  proof (cases e)
    case (EnteredFrame p)
    then have "t' = entered str t p" using s step_entered[OF wf Some] by simp
    then show ?thesis using enter[OF Some EnteredFrame] by simp
  next
    case (ExitedFrame q)
    show ?thesis
    proof (cases "last st")
      case Sentinel
      then have f: "finish t = Inr t'" using s ExitedFrame step_underflow[OF Some ne] by simp
      from us(2) Sentinel have "us = []" by (auto split: if_splits)
      then have "t_stack t = Some [Sentinel]" using us(1) Some by simp
      then show ?thesis using underflow ExitedFrame f by blast
    next
      case (FrameRef i)
      from step_exited[OF wf Some FrameRef, of str q] obtain k where
        k: "f_aggregated (t_frames t ! i) = Some k" "k < length (t_functions t)"
           "i < length (t_frames t)" "step str t (ExitedFrame q) = Inr (exited t i k q)"
        by blast
      then have "t' = exited t i k q" using s ExitedFrame by simp
      then show ?thesis using exit[OF Some FrameRef ExitedFrame k(3) k(1) k(2)] by simp
    qed
  qed
qed

text \<open>
  The name, location and parameter names of an aggregated record, and the \<open>fid\<close> of a
  frame, never change once they exist.
\<close>

definition stable ::
  "'v aggregated list \<Rightarrow> 'v frame list \<Rightarrow> 'v aggregated list \<Rightarrow> 'v frame list \<Rightarrow> bool" where
  "stable F fs F' fs' =
     (length F \<le> length F' \<and> length fs \<le> length fs'
      \<and> (\<forall>k<length F. a_name (F' ! k) = a_name (F ! k) \<and> a_location (F' ! k) = a_location (F ! k)
             \<and> a_parameterNames (F' ! k) = a_parameterNames (F ! k))
      \<and> (\<forall>i<length fs. f_fid (fs' ! i) = f_fid (fs ! i)))"

lemma stableI:
  assumes "length F \<le> length F'" "length fs \<le> length fs'"
    "\<And>k. k < length F \<Longrightarrow> a_name (F' ! k) = a_name (F ! k)"
    "\<And>k. k < length F \<Longrightarrow> a_location (F' ! k) = a_location (F ! k)"
    "\<And>k. k < length F \<Longrightarrow> a_parameterNames (F' ! k) = a_parameterNames (F ! k)"
    "\<And>i. i < length fs \<Longrightarrow> f_fid (fs' ! i) = f_fid (fs ! i)"
  shows "stable F fs F' fs'"
  using assms unfolding stable_def by blast

lemma stableD:
  assumes "stable F fs F' fs'"
  shows "length F \<le> length F'" "length fs \<le> length fs'"
    "\<And>k. k < length F \<Longrightarrow> a_name (F' ! k) = a_name (F ! k)"
    "\<And>k. k < length F \<Longrightarrow> a_location (F' ! k) = a_location (F ! k)"
    "\<And>k. k < length F \<Longrightarrow> a_parameterNames (F' ! k) = a_parameterNames (F ! k)"
    "\<And>i. i < length fs \<Longrightarrow> f_fid (fs' ! i) = f_fid (fs ! i)"
  using assms unfolding stable_def by blast+

lemma stable_refl: "stable F fs F fs"
  by (rule stableI) simp_all

lemma stable_trans:
  assumes a: "stable F fs F1 fs1" and b: "stable F1 fs1 F2 fs2"
  shows "stable F fs F2 fs2"
proof (rule stableI)
  note A = stableD[OF a] and B = stableD[OF b]
  show "length F \<le> length F2" "length fs \<le> length fs2" using A(1,2) B(1,2) by simp_all
  show "a_name (F2 ! k) = a_name (F ! k)" if "k < length F" for k
    using A(3)[OF that] B(3)[of k] that A(1) by simp
  show "a_location (F2 ! k) = a_location (F ! k)" if "k < length F" for k
    using A(4)[OF that] B(4)[of k] that A(1) by simp
  show "a_parameterNames (F2 ! k) = a_parameterNames (F ! k)" if "k < length F" for k
    using A(5)[OF that] B(5)[of k] that A(1) by simp
  show "f_fid (fs2 ! i) = f_fid (fs ! i)" if "i < length fs" for i
    using A(6)[OF that] B(6)[of i] that A(2) by simp
qed

lemma entered_functions_old:
  assumes ok: "ids_ok t" and k: "k < length (t_functions t)"
  shows "a_name (entered_functions str t p ! k) = a_name (t_functions t ! k)"
    and "a_location (entered_functions str t p ! k) = a_location (t_functions t ! k)"
    and "a_parameterNames (entered_functions str t p ! k) = a_parameterNames (t_functions t ! k)"
  using k
  by (simp_all add: entered_functions_def Let_def nth_list_update nth_append)

lemma stable_entered:
  assumes wf: "wf_trace t" and st: "t_stack t = Some st"
  shows "stable (t_functions t) (t_frames t)
           (t_functions (entered str t p)) (t_frames (entered str t p))"
proof (rule stableI)
  from wf have sk: "stack_ok t" by (simp add: wf_trace_def)
  from stack_okD[OF sk st] have ok: "ids_ok t" by blast
  note ef = entered_facts[OF st, where str = str and p = p]
  show "length (t_functions t) \<le> length (t_functions (entered str t p))"
    unfolding ef(6) by (rule entered_fid_lt(2)[OF ok])
  show "length (t_frames t) \<le> length (t_frames (entered str t p))" by (simp add: ef(2))
  show "a_name (t_functions (entered str t p) ! k) = a_name (t_functions t ! k)"
    if "k < length (t_functions t)" for k
    unfolding ef(6) by (rule entered_functions_old(1)[OF ok that])
  show "a_location (t_functions (entered str t p) ! k) = a_location (t_functions t ! k)"
    if "k < length (t_functions t)" for k
    unfolding ef(6) by (rule entered_functions_old(2)[OF ok that])
  show "a_parameterNames (t_functions (entered str t p) ! k) = a_parameterNames (t_functions t ! k)"
    if "k < length (t_functions t)" for k
    unfolding ef(6) by (rule entered_functions_old(3)[OF ok that])
  show "f_fid (t_frames (entered str t p) ! i) = f_fid (t_frames t ! i)"
    if "i < length (t_frames t)" for i
    using that by (simp add: ef(3) entered_old_fields(3))
qed

lemma exited_functions_old:
  shows "a_name (t_functions (exited t i k q) ! j) = a_name (t_functions t ! j)"
    and "a_location (t_functions (exited t i k q) ! j) = a_location (t_functions t ! j)"
    and "a_parameterNames (t_functions (exited t i k q) ! j) = a_parameterNames (t_functions t ! j)"
    and "a_count (t_functions (exited t i k q) ! j) = a_count (t_functions t ! j)"
proof -
  have f: "t_functions (exited t i k q)
             = (t_functions t)[k := exited_aggregated t i q (t_functions t ! k)]"
    by (simp add: exited_def)
  have a: "a_name (exited_aggregated t i q a) = a_name a"
    "a_location (exited_aggregated t i q a) = a_location a"
    "a_parameterNames (exited_aggregated t i q a) = a_parameterNames a"
    "a_count (exited_aggregated t i q a) = a_count a" for a
    by (simp_all add: exited_aggregated_def)
  show "a_name (t_functions (exited t i k q) ! j) = a_name (t_functions t ! j)"
    unfolding f by (cases "k < length (t_functions t)") (simp_all add: nth_list_update a list_update_beyond)
  show "a_location (t_functions (exited t i k q) ! j) = a_location (t_functions t ! j)"
    unfolding f by (cases "k < length (t_functions t)") (simp_all add: nth_list_update a list_update_beyond)
  show "a_parameterNames (t_functions (exited t i k q) ! j) = a_parameterNames (t_functions t ! j)"
    unfolding f by (cases "k < length (t_functions t)") (simp_all add: nth_list_update a list_update_beyond)
  show "a_count (t_functions (exited t i k q) ! j) = a_count (t_functions t ! j)"
    unfolding f by (cases "k < length (t_functions t)") (simp_all add: nth_list_update a list_update_beyond)
qed

lemma stable_exited:
  assumes st: "t_stack t = Some st"
  shows "stable (t_functions t) (t_frames t)
           (t_functions (exited t i k q)) (t_frames (exited t i k q))"
proof (rule stableI)
  note xf = exited_facts[OF st, where i = i and k = k and q = q]
  show "length (t_functions t) \<le> length (t_functions (exited t i k q))" by (simp add: xf(4))
  show "length (t_frames t) \<le> length (t_frames (exited t i k q))" by (simp add: xf(2))
  show "a_name (t_functions (exited t i k q) ! j) = a_name (t_functions t ! j)" for j
    by (rule exited_functions_old)
  show "a_location (t_functions (exited t i k q) ! j) = a_location (t_functions t ! j)" for j
    by (rule exited_functions_old)
  show "a_parameterNames (t_functions (exited t i k q) ! j) = a_parameterNames (t_functions t ! j)" for j
    by (rule exited_functions_old)
  show "f_fid (t_frames (exited t i k q) ! j) = f_fid (t_frames t ! j)"
    if "j < length (t_frames t)" for j
    using that by (cases "j = i") (simp_all add: xf(1) exited_frame_more_fields(1))
qed

lemma stable_step:
  assumes wf: "wf_trace t" and s: "step str t e = Inr t'"
  shows "stable (t_functions t) (t_frames t) (t_functions t') (t_frames t')"
  using wf s
proof (cases rule: step_cases)
  case (enter st p)
  then show ?thesis using stable_entered[OF wf enter(1)] by simp
next
  case (underflow q)
  from finish_fields[OF underflow(3)] show ?thesis by (simp add: stable_refl)
next
  case (exit st i k q)
  then show ?thesis using stable_exited[OF exit(1)] by simp
qed

lemma stable_run:
  "wf_trace t \<Longrightarrow> run str evs t = Inr t' \<Longrightarrow>
   stable (t_functions t) (t_frames t) (t_functions t') (t_frames t')"
proof (induction evs arbitrary: t)
  case Nil
  then show ?case by (simp add: stable_refl)
next
  case (Cons e es)
  from run_Cons_Inr[OF Cons.prems(2)] obtain t1 where
    t1: "step str t e = Inr t1" "run str es t1 = Inr t'" by blast
  from wf_step[OF Cons.prems(1) t1(1)] have wf1: "wf_trace t1" .
  from stable_trans[OF stable_step[OF Cons.prems(1) t1(1)] Cons.IH[OF wf1 t1(2)]]
  show ?case .
qed

text \<open>Every key of the function ids is the key of the record that it indexes.\<close>

definition ids_consistent :: "('v \<Rightarrow> string) \<Rightarrow> 'v trace \<Rightarrow> bool" where
  "ids_consistent str t =
     (\<forall>ids key k. t_functionIds t = Some ids \<longrightarrow> map_of ids key = Some k \<longrightarrow>
        key = locationToString str (a_location (t_functions t ! k)) (a_name (t_functions t ! k)))"

lemma ids_consistentD:
  "ids_consistent str t \<Longrightarrow> t_functionIds t = Some ids \<Longrightarrow> map_of ids key = Some k \<Longrightarrow>
   key = locationToString str (a_location (t_functions t ! k)) (a_name (t_functions t ! k))"
  unfolding ids_consistent_def by blast

lemma entered_function_new:
  assumes ids: "t_functionIds t = Some ids"
    and new: "map_of ids (locationToString str (p_location p) (p_name p)) = None"
  shows "entered_fid str t p = length (t_functions t)"
    and "a_name (entered_functions str t p ! length (t_functions t)) = p_name p"
    and "a_location (entered_functions str t p ! length (t_functions t)) = p_location p"
    and "a_parameterNames (entered_functions str t p ! length (t_functions t)) = p_parameterNames p"
    and "entered_ids str t p =
           AList.update (locationToString str (p_location p) (p_name p)) (length (t_functions t)) ids"
  using ids new
  by (simp_all add: entered_fid_def entered_functions_def entered_ids_def Let_def)

lemma entered_function_known:
  assumes ids: "t_functionIds t = Some ids"
    and old: "map_of ids (locationToString str (p_location p) (p_name p)) = Some k"
  shows "entered_fid str t p = k"
    and "length (entered_functions str t p) = length (t_functions t)"
    and "entered_ids str t p = ids"
  using ids old
  by (simp_all add: entered_fid_def entered_functions_def entered_ids_def Let_def)

lemma ids_consistent_entered:
  assumes wf: "wf_trace t" and st: "t_stack t = Some st" and c: "ids_consistent str t"
  shows "ids_consistent str (entered str t p)"
proof -
  from wf have sk: "stack_ok t" by (simp add: wf_trace_def)
  from stack_okD[OF sk st] have ok: "ids_ok t" by blast
  then obtain ids where ids: "t_functionIds t = Some ids"
      and rng: "\<And>k i. map_of ids k = Some i \<Longrightarrow> i < length (t_functions t)"
    by (auto simp: ids_ok_def split: option.splits)
  define key where "key = locationToString str (p_location p) (p_name p)"
  have fns: "t_functions (entered str t p) = entered_functions str t p"
    and ids': "t_functionIds (entered str t p) = Some (entered_ids str t p)"
    using st by (simp_all add: entered_def Let_def)
  show ?thesis
    unfolding ids_consistent_def fns ids'
  proof (intro allI impI)
    fix ids2 key2 k2
    assume a: "Some (entered_ids str t p) = Some ids2" and m: "map_of ids2 key2 = Some k2"
    show "key2 = locationToString str (a_location (entered_functions str t p ! k2))
                    (a_name (entered_functions str t p ! k2))"
    proof (cases "map_of ids key")
      case None
      note n = entered_function_new[OF ids None[unfolded key_def]]
      from a n(5) have i2: "ids2 = AList.update key (length (t_functions t)) ids"
        by (simp add: key_def)
      show ?thesis
      proof (cases "key2 = key")
        case True
        with m i2 have "k2 = length (t_functions t)" by (simp add: update_conv')
        then show ?thesis using True n(2,3) by (simp add: key_def)
      next
        case False
        with m i2 have m': "map_of ids key2 = Some k2" by (simp add: update_conv')
        from rng[OF m'] have k2: "k2 < length (t_functions t)" .
        from ids_consistentD[OF c ids m'] show ?thesis
          by (simp add: entered_functions_old[OF ok k2])
      qed
    next
      case (Some k)
      note n = entered_function_known[OF ids Some[unfolded key_def]]
      from a n(3) have i2: "ids2 = ids" by simp
      with m have m': "map_of ids key2 = Some k2" by simp
      from rng[OF m'] have k2: "k2 < length (t_functions t)" .
      from ids_consistentD[OF c ids m'] show ?thesis
        by (simp add: entered_functions_old[OF ok k2])
    qed
  qed
qed

lemma ids_consistent_exited:
  assumes st: "t_stack t = Some st" and c: "ids_consistent str t"
  shows "ids_consistent str (exited t i k q)"
  using c unfolding ids_consistent_def exited_functions_old exited_facts(5)[OF st] .

lemma ids_consistent_step:
  assumes wf: "wf_trace t" and s: "step str t e = Inr t'" and c: "ids_consistent str t"
  shows "ids_consistent str t'"
  using wf s
proof (cases rule: step_cases)
  case (enter st p)
  then show ?thesis using ids_consistent_entered[OF wf enter(1) c] by simp
next
  case (underflow q)
  from finish_fields(5)[OF underflow(3)] show ?thesis by (simp add: ids_consistent_def)
next
  case (exit st i k q)
  then show ?thesis using ids_consistent_exited[OF exit(1) c] by simp
qed

lemma ids_consistent_run:
  "wf_trace t \<Longrightarrow> ids_consistent str t \<Longrightarrow> run str evs t = Inr t' \<Longrightarrow> ids_consistent str t'"
proof (induction evs arbitrary: t)
  case Nil
  then show ?case by simp
next
  case (Cons e es)
  from run_Cons_Inr[OF Cons.prems(3)] obtain t1 where
    t1: "step str t e = Inr t1" "run str es t1 = Inr t'" by blast
  from wf_step[OF Cons.prems(1) t1(1)] have wf1: "wf_trace t1" .
  from Cons.IH[OF wf1 ids_consistent_step[OF Cons.prems(1) t1(1) Cons.prems(2)] t1(2)]
  show ?case .
qed

text \<open>
  The record of the function that is entered has the key of the packet, and its fields are
  those of the packet when the key is new.
\<close>

lemma entered_function_key:
  fixes t :: "'v trace" and p :: "'v enter_packet" and str :: "'v \<Rightarrow> string"
  assumes wf: "wf_trace t" and st: "t_stack t = Some st" and c: "ids_consistent str t"
  shows "locationToString str
           (a_location (entered_functions str t p ! entered_fid str t p))
           (a_name (entered_functions str t p ! entered_fid str t p))
           = locationToString str (p_location p) (p_name p)"
    and "map_of (the (t_functionIds t)) (locationToString str (p_location p) (p_name p)) = None
         \<Longrightarrow> a_name (entered_functions str t p ! entered_fid str t p) = p_name p
             \<and> a_location (entered_functions str t p ! entered_fid str t p) = p_location p
             \<and> a_parameterNames (entered_functions str t p ! entered_fid str t p)
                 = p_parameterNames p"
proof -
  from wf have sk: "stack_ok t" by (simp add: wf_trace_def)
  from stack_okD[OF sk st] have ok: "ids_ok t" by blast
  then obtain ids where ids: "t_functionIds t = Some ids"
      and rng: "\<And>k i. map_of ids k = Some i \<Longrightarrow> i < length (t_functions t)"
    by (auto simp: ids_ok_def split: option.splits)
  define key where "key = locationToString str (p_location p) (p_name p)"
  show "locationToString str
           (a_location (entered_functions str t p ! entered_fid str t p))
           (a_name (entered_functions str t p ! entered_fid str t p))
           = locationToString str (p_location p) (p_name p)"
  proof (cases "map_of ids key")
    case None
    note n = entered_function_new[OF ids None[unfolded key_def]]
    show ?thesis unfolding n(1) n(2) n(3) ..
  next
    case (Some k)
    note n = entered_function_known[OF ids Some[unfolded key_def]]
    from rng[OF Some] have k: "k < length (t_functions t)" .
    from ids_consistentD[OF c ids Some] show ?thesis
      unfolding n(1) entered_functions_old[OF ok k] key_def by simp
  qed
  show "a_name (entered_functions str t p ! entered_fid str t p) = p_name p
             \<and> a_location (entered_functions str t p ! entered_fid str t p) = p_location p
             \<and> a_parameterNames (entered_functions str t p ! entered_fid str t p)
                 = p_parameterNames p"
    if "map_of (the (t_functionIds t)) (locationToString str (p_location p) (p_name p)) = None"
  proof -
    from that ids have "map_of ids (locationToString str (p_location p) (p_name p)) = None"
      by simp
    note n = entered_function_new[OF ids this]
    show ?thesis unfolding n(1) using n(2,3,4) by simp
  qed
qed

subsection \<open>Traces that differ in their call sites only\<close>

text \<open>
  The replay has the call sites \<open>undefined\<close>. \<open>sim s s'\<close> relates two live traces
  with the same roots, aggregated records, stack and function ids, and the same frames up
  to their call sites; the handlers keep it, and \<open>toJSON\<close> does not see the difference.
\<close>

definition reset :: "'v frame \<Rightarrow> 'v frame" where
  "reset f = f\<lparr>f_callsite := None\<rparr>"

lemma reset_eqD:
  assumes "reset f = reset g"
  shows "f_uid f = f_uid g" "f_depth f = f_depth g" "f_children f = f_children g"
    "f_older f = f_older g" "f_previous f = f_previous g" "f_next f = f_next g"
    "f_fid f = f_fid g" "f_aggregated f = f_aggregated g" "f_name f = f_name g"
    "f_location f = f_location g" "f_parameterNames f = f_parameterNames g"
    "f_startTime f = f_startTime g" "f_endTime f = f_endTime g"
    "f_totalTime f = f_totalTime g" "f_selfTime f = f_selfTime g"
    "f_arguments f = f_arguments g" "f_return f = f_return g" "f_throw f = f_throw g"
    "f_yield f = f_yield g"
  using arg_cong[OF assms, of f_uid] arg_cong[OF assms, of f_depth]
    arg_cong[OF assms, of f_children] arg_cong[OF assms, of f_older]
    arg_cong[OF assms, of f_previous] arg_cong[OF assms, of f_next]
    arg_cong[OF assms, of f_fid] arg_cong[OF assms, of f_aggregated]
    arg_cong[OF assms, of f_name] arg_cong[OF assms, of f_location]
    arg_cong[OF assms, of f_parameterNames] arg_cong[OF assms, of f_startTime]
    arg_cong[OF assms, of f_endTime] arg_cong[OF assms, of f_totalTime]
    arg_cong[OF assms, of f_selfTime] arg_cong[OF assms, of f_arguments]
    arg_cong[OF assms, of f_return] arg_cong[OF assms, of f_throw]
    arg_cong[OF assms, of f_yield]
  by (simp_all add: reset_def)

definition sim :: "'v trace \<Rightarrow> 'v trace \<Rightarrow> bool" where
  "sim s s' =
     (t_children s' = t_children s \<and> t_functions s' = t_functions s \<and> t_stack s' = t_stack s
      \<and> t_functionIds s' = t_functionIds s
      \<and> map reset (t_frames s') = map reset (t_frames s))"

lemma simD:
  assumes "sim s s'"
  shows "t_children s' = t_children s" "t_functions s' = t_functions s"
    "t_stack s' = t_stack s" "t_functionIds s' = t_functionIds s"
    "length (t_frames s') = length (t_frames s)"
    "\<And>i. i < length (t_frames s) \<Longrightarrow> reset (t_frames s' ! i) = reset (t_frames s ! i)"
proof -
  from assms have m: "map reset (t_frames s') = map reset (t_frames s)"
    by (simp add: sim_def)
  from assms show "t_children s' = t_children s" "t_functions s' = t_functions s"
    "t_stack s' = t_stack s" "t_functionIds s' = t_functionIds s"
    by (simp_all add: sim_def)
  from m show len: "length (t_frames s') = length (t_frames s)"
    by (rule map_eq_imp_length_eq)
  show "reset (t_frames s' ! i) = reset (t_frames s ! i)" if "i < length (t_frames s)" for i
    using arg_cong[OF m, of "\<lambda>xs. xs ! i"] that len by simp
qed

lemma simI:
  assumes "t_children s' = t_children s" "t_functions s' = t_functions s"
    "t_stack s' = t_stack s" "t_functionIds s' = t_functionIds s"
    "length (t_frames s') = length (t_frames s)"
    "\<And>i. i < length (t_frames s) \<Longrightarrow> reset (t_frames s' ! i) = reset (t_frames s ! i)"
  shows "sim s s'"
proof -
  have "map reset (t_frames s') = map reset (t_frames s)"
    by (rule nth_equalityI) (simp_all add: assms(5,6))
  then show ?thesis using assms(1-4) by (simp add: sim_def)
qed

lemma sim_children_of:
  assumes sim: "sim s s'" and r: "ref_ok s cur"
  shows "children_of s' cur = children_of s cur"
proof (cases cur)
  case Sentinel
  then show ?thesis by (simp add: children_of_def simD(1)[OF sim])
next
  case (FrameRef i)
  then have "i < length (t_frames s)" using r by (simp add: ref_ok_def)
  from reset_eqD(3)[OF simD(6)[OF sim this]] show ?thesis
    by (simp add: children_of_def FrameRef)
qed

lemma sim_entered_frames:
  assumes sim: "sim s s'" and r: "ref_ok s cur" and i: "i < length (t_frames s)"
  shows "reset (entered_frames s' cur ! i) = reset (entered_frames s cur ! i)"
proof -
  note S = simD[OF sim]
  from i S(5) have i': "i < length (t_frames s')" by simp
  note R = reset_eqD[OF S(6)[OF i]]
  note co = sim_children_of[OF sim r]
  show ?thesis
    unfolding entered_frames_nth[OF i] entered_frames_nth[OF i']
    by (rule frame.equality) (simp_all add: reset_def R co S(5))
qed

lemma t_functionIds_entered:
  "t_stack t = Some st \<Longrightarrow> t_functionIds (entered str t p) = Some (entered_ids str t p)"
  by (simp add: entered_def Let_def)

lemma sim_entered:
  assumes sim: "sim s s'" and wf: "wf_trace s" and st: "t_stack s = Some st"
    and key: "locationToString str (p_location p') (p_name p')
                = locationToString str (p_location p) (p_name p)"
    and new: "map_of (the (t_functionIds s)) (locationToString str (p_location p) (p_name p)) = None
              \<Longrightarrow> p_name p' = p_name p \<and> p_location p' = p_location p
                  \<and> p_parameterNames p' = p_parameterNames p"
    and args: "p_arguments p' = p_arguments p" and time: "p_time p' = p_time p"
  shows "sim (entered str s p) (entered str s' p')"
proof (rule simI)
  note S = simD[OF sim]
  have st': "t_stack s' = Some st" using S(3) st by simp
  note ef = entered_facts[OF st, where str = str and p = p]
  note ef' = entered_facts[OF st', where str = str and p = p']
  from wf have sk: "stack_ok s" by (simp add: wf_trace_def)
  from stack_okD[OF sk st] have r: "ref_ok s (last st)" by blast
  note co = sim_children_of[OF sim r]
  have fid: "entered_fid str s' p' = entered_fid str s p"
    unfolding entered_fid_def S(2) S(4) key ..
  have fns: "entered_functions str s' p' = entered_functions str s p"
  proof (cases "map_of (the (t_functionIds s)) (locationToString str (p_location p) (p_name p))")
    case None
    from new[OF None] show ?thesis
      unfolding entered_functions_def fid S(2) S(4) key Let_def None by simp
  next
    case (Some k)
    show ?thesis
      unfolding entered_functions_def fid S(2) S(4) key Let_def Some by simp
  qed
  have ids: "entered_ids str s' p' = entered_ids str s p"
    unfolding entered_ids_def S(2) S(4) key ..
  show "t_children (entered str s' p') = t_children (entered str s p)"
    by (simp add: ef(7) ef'(7) S(1,5))
  show "t_functions (entered str s' p') = t_functions (entered str s p)"
    by (simp add: ef(6) ef'(6) fns)
  show "t_stack (entered str s' p') = t_stack (entered str s p)"
    by (simp add: ef(5) ef'(5) S(5))
  show "t_functionIds (entered str s' p') = t_functionIds (entered str s p)"
    by (simp add: t_functionIds_entered[OF st] t_functionIds_entered[OF st'] ids)
  show "length (t_frames (entered str s' p')) = length (t_frames (entered str s p))"
    by (simp add: ef(2) ef'(2) S(5))
  show "reset (t_frames (entered str s' p') ! i) = reset (t_frames (entered str s p) ! i)"
    if "i < length (t_frames (entered str s p))" for i
  proof (cases "i < length (t_frames s)")
    case True
    then have "i < length (t_frames s')" using S(5) by simp
    then show ?thesis
      using True by (simp add: ef(3) ef'(3) sim_entered_frames[OF sim r True])
  next
    case False
    with that have i: "i = length (t_frames s)" by (simp add: ef(2))
    have "reset (entered_frame str s' (last st) p') = reset (entered_frame str s (last st) p)"
      unfolding entered_frame_def Let_def co fid fns S(3) S(5) args time reset_def by simp
    then show ?thesis
      using ef(4) ef'(4) by (simp add: i S(5))
  qed
qed

lemma sim_exited:
  assumes sim: "sim s s'" and wf: "wf_trace s" and i: "i < length (t_frames s)"
  shows "sim (exited s i k q) (exited s' i k q)"
proof -
  note S = simD[OF sim]
  from wf have so: "store_ok s" by (simp add: wf_trace_def)
  from i S(5) have i': "i < length (t_frames s')" by simp
  note R = reset_eqD[OF S(6)[OF i]]
  have tt: "exited_totalTime s' i q = exited_totalTime s i q"
    by (simp add: exited_totalTime_def R)
  have sf: "exited_selfTime s' i q = exited_selfTime s i q"
    unfolding exited_selfTime_def tt R(3)
  proof (rule foldl_sub_cong)
    fix c assume "c \<in> set (f_children (t_frames s ! i))"
    with store_okD(2)[OF so i] have c: "c < length (t_frames s)" by blast
    show "num_of (f_totalTime ((t_frames s')[i := (t_frames s' ! i)
              \<lparr>f_totalTime := Some (exited_totalTime s i q)\<rparr>] ! c))
        = num_of (f_totalTime ((t_frames s)[i := (t_frames s ! i)
              \<lparr>f_totalTime := Some (exited_totalTime s i q)\<rparr>] ! c))"
      using reset_eqD(14)[OF S(6)[OF c]] i i' by (simp add: nth_list_update)
  qed
  have fr: "reset (exited_frame s' i q) = reset (exited_frame s i q)"
    unfolding exited_frame_def tt sf
    by (rule frame.equality) (simp_all add: reset_def R)
  have ag: "exited_aggregated s' i q a = exited_aggregated s i q a" for a
    by (simp add: exited_aggregated_def tt sf)
  show ?thesis
  proof (rule simI)
    show "t_children (exited s' i k q) = t_children (exited s i k q)"
      by (simp add: exited_def S(1))
    show "t_functions (exited s' i k q) = t_functions (exited s i k q)"
      by (simp add: exited_def S(2) ag)
    show "t_stack (exited s' i k q) = t_stack (exited s i k q)"
      by (simp add: exited_def S(3))
    show "t_functionIds (exited s' i k q) = t_functionIds (exited s i k q)"
      by (simp add: exited_def S(4))
    show "length (t_frames (exited s' i k q)) = length (t_frames (exited s i k q))"
      by (simp add: exited_def S(5))
    show "reset (t_frames (exited s' i k q) ! j) = reset (t_frames (exited s i k q) ! j)"
      if "j < length (t_frames (exited s i k q))" for j
    proof -
      from that have j: "j < length (t_frames s)" by (simp add: exited_def)
      show ?thesis
      proof (cases "j = i")
        case True
        then show ?thesis using i i' fr by (simp add: exited_def)
      next
        case False
        then show ?thesis using S(6)[OF j] by (simp add: exited_def)
      qed
    qed
  qed
qed

lemma frameToJSONObj_sim:
  assumes len: "length fs' = length fs"
    and eq: "\<And>i. i < length fs \<Longrightarrow> reset (fs' ! i) = reset (fs ! i)"
  shows "frameToJSONObj fuel fs' u = frameToJSONObj fuel fs u"
proof (induction fuel arbitrary: u)
  case 0
  show ?case by simp
next
  case (Suc fuel)
  show ?case
  proof (cases "u < length fs")
    case True
    note R = reset_eqD[OF eq[OF True]]
    have "map (frameToJSONObj fuel fs') (f_children (fs ! u))
            = map (frameToJSONObj fuel fs) (f_children (fs ! u))"
      by (rule map_cong) (simp_all add: Suc.IH)
    then show ?thesis using True by (simp add: len Let_def R del: map_eq_conv)
  next
    case False
    then show ?thesis by (simp add: len)
  qed
qed

lemma toJSON_sim:
  assumes "sim s s'"
  shows "toJSON s' = toJSON s"
proof -
  note S = simD[OF assms]
  have "frameToJSONObj n (t_frames s') = frameToJSONObj n (t_frames s)" for n
    by (rule ext) (rule frameToJSONObj_sim[OF S(5) S(6)])
  then show ?thesis by (simp add: toJSON_def S(1,2,5))
qed

subsection \<open>The replay of a document\<close>

text \<open>
  A time survives \<open>JSON.stringify\<close> and \<open>JSON.parse\<close> when it is a finite number,
  \<open>null\<close>, or missing.
\<close>

fun json_safe :: "jsval \<Rightarrow> bool" where
  "json_safe (Number NaN) = False"
| "json_safe (Number PosInf) = False"
| "json_safe (Number NegInf) = False"
| "json_safe v = True"

lemma parse_json_time: "json_safe v \<Longrightarrow> parse_time (json_time v) = v"
  by (cases v rule: json_safe.cases) simp_all

lemma run_append_Inr:
  "run str (xs @ ys) t = Inr t' \<Longrightarrow> \<exists>t1. run str xs t = Inr t1 \<and> run str ys t1 = Inr t'"
  unfolding run_append by (cases "run str xs t") simp_all

text \<open>
  \<open>parseTrace\<close> on the document of a forest runs the handlers on the same events, up to
  the call sites and to the packets of the functions already known, which repeat the name,
  location and parameter names of the first call.
\<close>

lemma replay_calls:
  fixes s s' :: "'v trace"
  shows "wf_trace s \<Longrightarrow> wf_trace s' \<Longrightarrow> sim s s' \<Longrightarrow> ids_consistent str s \<Longrightarrow>
      t_stack s = Some st \<Longrightarrow> \<forall>e\<in>set (flatten_call c). json_safe (event_time e) \<Longrightarrow>
      run str (flatten_call c) s = Inr s1 \<Longrightarrow>
      stable (t_functions s1) (t_frames s1) F fsT \<Longrightarrow>
      \<exists>s1'. enterFrame str (map functionToJSON F) s' (json_call fsT (length (t_frames s)) c) = Inr s1'
           \<and> wf_trace s1' \<and> sim s1 s1'"
    and "wf_trace s \<Longrightarrow> wf_trace s' \<Longrightarrow> sim s s' \<Longrightarrow> ids_consistent str s \<Longrightarrow>
      t_stack s = Some st \<Longrightarrow> \<forall>e\<in>set (flatten_calls cs). json_safe (event_time e) \<Longrightarrow>
      run str (flatten_calls cs) s = Inr s1 \<Longrightarrow>
      stable (t_functions s1) (t_frames s1) F fsT \<Longrightarrow>
      \<exists>s1'. enterFrames str (map functionToJSON F) s' (json_calls fsT (length (t_frames s)) cs) = Inr s1'
           \<and> wf_trace s1' \<and> sim s1 s1'"
proof (induction c and cs arbitrary: s s' st s1 and s s' st s1
    rule: flatten_call_flatten_calls.induct)
  case (1 p cs q)
  note wf = "1.prems"(1) and wf' = "1.prems"(2) and sim = "1.prems"(3) and idc = "1.prems"(4)
    and st = "1.prems"(5) and safe = "1.prems"(6) and run = "1.prems"(7) and stab = "1.prems"(8)
  define n where "n = length (t_frames s)"
  from wf have sk: "stack_ok s" by (simp add: wf_trace_def)
  from stack_okD[OF sk st] have ok: "ids_ok s" by blast
  define sa where "sa = entered str s p"
  have e1: "step str s (EnteredFrame p) = Inr sa" unfolding sa_def by (rule step_entered[OF wf st])
  from run e1 have "run str (flatten_calls cs @ [ExitedFrame q]) sa = Inr s1" by simp
  from run_snoc_Inr[OF this] obtain sb where
    rb: "run str (flatten_calls cs) sa = Inr sb" and e3: "step str sb (ExitedFrame q) = Inr s1"
    by blast
  have wfa: "wf_trace sa" unfolding sa_def by (rule wf_entered[OF wf st])
  have wfb: "wf_trace sb" by (rule wf_run[OF wfa rb])
  note ef = entered_facts[OF st, where str = str and p = p, folded sa_def n_def]
  have sta: "t_stack sa = Some (st @ [FrameRef n])" by (rule ef(5))
  from ingest_calls(2)[OF wfa sta, of str cs] rb
  have gab: "grown sa sb (FrameRef n) (positions (length (t_frames sa)) cs)" by auto
  have stb: "t_stack sb = Some (st @ [FrameRef n])" using grownD(1)[OF gab] sta by simp
  have top: "last (st @ [FrameRef n]) = FrameRef n" by simp
  from step_exited[OF wfb stb top, of str q] obtain k2 where
    k2: "f_aggregated (t_frames sb ! n) = Some k2"
    and nb: "n < length (t_frames sb)"
    and e3': "step str sb (ExitedFrame q) = Inr (exited sb n k2 q)"
    by blast
  from e3 e3' have s1: "s1 = exited sb n k2 q" by simp
  note stab_b = stable_trans[OF stable_step[OF wfb e3] stab]
  note stab_a = stable_trans[OF stable_run[OF wfa rb] stab_b]
  define k where "k = entered_fid str s p"
  define a where "a = entered_functions str s p ! k"
  have kl: "k < length (t_functions sa)"
    unfolding ef(6) k_def by (rule entered_fid_lt(1)[OF ok])
  have na: "n < length (t_frames sa)" by (simp add: ef(2))
  have fid_n: "f_fid (fsT ! n) = Some k"
    using stableD(6)[OF stab_a na] by (simp add: ef(4) entered_frame_def Let_def k_def)
  have kF: "k < length F" using stableD(1)[OF stab_a] kl by simp
  have names: "a_name (F ! k) = a_name a" "a_location (F ! k) = a_location a"
    "a_parameterNames (F ! k) = a_parameterNames a"
    using stableD(3)[OF stab_a kl] stableD(4)[OF stab_a kl] stableD(5)[OF stab_a kl]
    by (simp_all add: ef(6) a_def)
  from safe have sp: "parse_time (json_time (p_time p)) = p_time p"
    and sq: "parse_time (json_time (q_time q)) = q_time q"
    and safe_cs: "\<forall>e\<in>set (flatten_calls cs). json_safe (event_time e)"
    by (simp_all add: parse_json_time)
  define p' where "p' = \<lparr>p_name = a_name a, p_location = a_location a,
      p_parameterNames = a_parameterNames a, p_callsite = None,
      p_arguments = p_arguments p, p_time = p_time p\<rparr>"
  note S = simD[OF sim]
  have st': "t_stack s' = Some st" using S(3) st by simp
  define sa' where "sa' = entered str s' p'"
  have e1': "onEnteredFrame str s' p' = Inr sa'"
    using step_entered[OF wf' st', of str p'] by (simp add: sa'_def)
  have wfa': "wf_trace sa'" unfolding sa'_def by (rule wf_entered[OF wf' st'])
  note fk = entered_function_key[OF wf st idc, of p, folded k_def, folded a_def]
  have sima: "sim sa sa'"
    unfolding sa_def sa'_def
  proof (rule sim_entered[OF sim wf st])
    show "locationToString str (p_location p') (p_name p')
            = locationToString str (p_location p) (p_name p)"
      using fk(1) by (simp add: p'_def)
    show "p_name p' = p_name p \<and> p_location p' = p_location p
            \<and> p_parameterNames p' = p_parameterNames p"
      if "map_of (the (t_functionIds s)) (locationToString str (p_location p) (p_name p)) = None"
      using fk(2)[OF that] by (simp add: p'_def)
    show "p_arguments p' = p_arguments p" "p_time p' = p_time p" by (simp_all add: p'_def)
  qed
  have idca: "ids_consistent str sa" unfolding sa_def by (rule ids_consistent_entered[OF wf st idc])
  from "1.IH"[OF wfa wfa' sima idca sta safe_cs rb stab_b] obtain sb' where
    rb': "enterFrames str (map functionToJSON F) sa' (json_calls fsT (Suc n) cs) = Inr sb'"
    and wfb': "wf_trace sb'" and simb: "sim sb sb'"
    unfolding ef(2) by blast
  have stb': "t_stack sb' = Some (st @ [FrameRef n])" using simD(3)[OF simb] stb by simp
  from step_exited[OF wfb' stb' top, of str q] obtain k3 where
    k3: "f_aggregated (t_frames sb' ! n) = Some k3"
    and e3'': "step str sb' (ExitedFrame q) = Inr (exited sb' n k3 q)"
    by blast
  from reset_eqD(8)[OF simD(6)[OF simb nb]] k2 k3 have "k3 = k2" by simp
  with e3'' have x': "onExitedFrame sb' q = Inr (exited sb' n k2 q)" by simp
  have wf1': "wf_trace (exited sb' n k2 q)" using wf_step[OF wfb', of str "ExitedFrame q"] x' by simp
  have sim1: "sim s1 (exited sb' n k2 q)" unfolding s1 by (rule sim_exited[OF simb wfb nb])
  have q: "\<lparr>q_time = q_time q, q_return = q_return q, q_throw = q_throw q, q_yield = q_yield q\<rparr> = q"
    by simp
  have "enterFrame str (map functionToJSON F) s' (json_call fsT n (Call p cs q))
          = Inr (exited sb' n k2 q)"
    using e1' rb' x'
    by (simp add: fid_n kF functionToJSON_def names sp sq p'_def[symmetric] exitFrame_def q)
  then show ?case using wf1' sim1 unfolding n_def by blast
next
  case (2 s s' st s1)
  then show ?case by simp
next
  case (3 c cs)
  note wf = "3.prems"(1) and wf' = "3.prems"(2) and sim = "3.prems"(3) and idc = "3.prems"(4)
    and st = "3.prems"(5) and safe = "3.prems"(6) and run = "3.prems"(7) and stab = "3.prems"(8)
  define n where "n = length (t_frames s)"
  from run have "run str (flatten_call c @ flatten_calls cs) s = Inr s1" by simp
  from run_append_Inr[OF this] obtain s0 where
    r1: "run str (flatten_call c) s = Inr s0" and r2: "run str (flatten_calls cs) s0 = Inr s1"
    by blast
  have wf0: "wf_trace s0" by (rule wf_run[OF wf r1])
  note stab0 = stable_trans[OF stable_run[OF wf0 r2] stab]
  from safe have safe_c: "\<forall>e\<in>set (flatten_call c). json_safe (event_time e)"
    and safe_cs: "\<forall>e\<in>set (flatten_calls cs). json_safe (event_time e)" by simp_all
  from "3.IH"(1)[OF wf wf' sim idc st safe_c r1 stab0] obtain s0' where
    r1': "enterFrame str (map functionToJSON F) s' (json_call fsT n c) = Inr s0'"
    and wf0': "wf_trace s0'" and sim0: "sim s0 s0'"
    unfolding n_def by blast
  from ingest_calls(1)[OF wf st, of str c] r1
  have len0: "length (t_frames s0) = n + size_call c"
    and g: "grown s s0 (last st) [n]" unfolding n_def by auto
  have st0: "t_stack s0 = Some st" using grownD(1)[OF g] st by simp
  have idc0: "ids_consistent str s0" by (rule ids_consistent_run[OF wf idc r1])
  from "3.IH"(2)[OF wf0 wf0' sim0 idc0 st0 safe_cs r2 stab] obtain s1' where
    r2': "enterFrames str (map functionToJSON F) s0' (json_calls fsT (n + size_call c) cs) = Inr s1'"
    and wf1': "wf_trace s1'" and sim1: "sim s1 s1'"
    unfolding len0 by blast
  have "enterFrames str (map functionToJSON F) s' (json_calls fsT n (c # cs)) = Inr s1'"
    using r1' r2' by simp
  then show ?case using wf1' sim1 unfolding n_def by blast
qed

subsection \<open>Closed traces\<close>

text \<open>
  The events that lead a new trace to a state with every frame exited are the flattening
  of a forest of calls; a finished trace is such a state followed by the exit that
  underflows the stack.
\<close>

fun opened :: "('v enter_packet \<times> 'v call list) list \<Rightarrow> 'v call list \<Rightarrow> 'v event list" where
  "opened [] acc = flatten_calls acc"
| "opened ((p, sibs) # stk) acc = opened stk sibs @ EnteredFrame p # flatten_calls acc"

lemma flatten_calls_append: "flatten_calls (xs @ ys) = flatten_calls xs @ flatten_calls ys"
  by (induction xs) simp_all

lemma opened_snoc: "opened stk (sibs @ [c]) = opened stk sibs @ flatten_call c"
  by (cases stk) (auto simp: flatten_calls_append)

lemma run_finished:
  "t_stack t = None \<Longrightarrow> run str es t = Inr t' \<Longrightarrow> t' = t"
  by (cases es) (simp_all add: step_finished)

lemma well_nested:
  fixes s :: "'v trace"
  shows "run str es s = Inr t \<Longrightarrow> wf_trace s \<Longrightarrow> t_stack s = Some st \<Longrightarrow>
     length st = Suc (length stk) \<Longrightarrow> t_stack t = Some [Sentinel] \<Longrightarrow>
     \<exists>cs. opened stk acc @ es = flatten_calls cs"
proof (induction es arbitrary: s st stk acc)
  case Nil
  from Nil.prems(1,3,5) have "st = [Sentinel]" by simp
  with Nil.prems(4) have "stk = []" by simp
  then show ?case by auto
next
  case (Cons e es)
  from run_Cons_Inr[OF Cons.prems(1)] obtain s1 where
    s1: "step str s e = Inr s1" and r: "run str es s1 = Inr t" by blast
  note wf = Cons.prems(2) and st = Cons.prems(3)
  have wf1: "wf_trace s1" by (rule wf_step[OF wf s1])
  from wf s1 show ?case
  proof (cases rule: step_cases)
    case (enter st' p)
    with st have [simp]: "st' = st" by simp
    have st1: "t_stack s1 = Some (st @ [FrameRef (length (t_frames s))])"
      using entered_facts(5)[OF st] enter(3) by simp
    have len: "length (st @ [FrameRef (length (t_frames s))]) = Suc (length ((p, acc) # stk))"
      using Cons.prems(4) by simp
    from Cons.IH[OF r wf1 st1 len Cons.prems(5), of "[]"] show ?thesis
      by (simp add: enter(2))
  next
    case (underflow q)
    from finish_fields(2)[OF underflow(3)] have "t_stack s1 = None" .
    from run_finished[OF this r] this Cons.prems(5) show ?thesis by simp
  next
    case (exit st' i k q)
    with st have [simp]: "st' = st" by simp
    from wf have sk: "stack_ok s" by (simp add: wf_trace_def)
    from stack_okD[OF sk st] obtain us where us: "st = Sentinel # map FrameRef us"
      "last st = (if us = [] then Sentinel else FrameRef (last us))" by blast
    from us(2) exit(2) have "us \<noteq> []" by (auto split: if_splits)
    with us(1) Cons.prems(4) obtain p0 sibs stk' where stk: "stk = (p0, sibs) # stk'"
      by (cases stk) auto
    have st1: "t_stack s1 = Some (butlast st)"
      using exited_facts(3)[OF st] exit(7) by simp
    have len: "length (butlast st) = Suc (length stk')"
      using Cons.prems(4) stk by simp
    from Cons.IH[OF r wf1 st1 len Cons.prems(5), of "sibs @ [Call p0 acc q]"] show ?thesis
      by (simp add: exit(3) stk opened_snoc)
  qed
qed

lemma closed_is_forest:
  assumes "run str evs (Trace client name) = Inr t" "t_stack t = Some [Sentinel]"
  shows "\<exists>cs. evs = flatten_calls cs"
proof -
  have st: "t_stack (Trace client name) = Some [Sentinel]" by (simp add: Trace_def)
  have "length [Sentinel] = Suc (length ([] :: ('a enter_packet \<times> 'a call list) list))" by simp
  from well_nested[OF assms(1) wf_Trace st this assms(2), of "[]"] show ?thesis by simp
qed

lemma live_not_finished:
  "run str evs (Trace client name) = Inr t \<Longrightarrow> t_stack t \<noteq> None \<Longrightarrow> \<not> t_finished t"
proof (induction evs arbitrary: t rule: rev_induct)
  case Nil
  then have "t = Trace client name" by simp
  then show ?case by (simp add: Trace_def)
next
  case (snoc e es)
  from run_snoc_Inr[OF snoc.prems(1)] obtain t1 where
    t1: "run str es (Trace client name) = Inr t1" and s: "step str t1 e = Inr t" by blast
  have wf1: "wf_trace t1" by (rule wf_reachable[OF t1])
  from wf1 s show ?case
  proof (cases rule: step_cases)
    case (enter st p)
    from snoc.IH[OF t1] enter(1) have "\<not> t_finished t1" by simp
    then show ?thesis using entered_fields(4)[OF enter(1)] enter(3) by simp
  next
    case (underflow q)
    from finish_fields(2)[OF underflow(3)] snoc.prems(2) show ?thesis by simp
  next
    case (exit st i k q)
    from snoc.IH[OF t1] exit(1) have "\<not> t_finished t1" by simp
    then show ?thesis using exited_fields(4)[OF exit(1)] exit(7) by simp
  qed
qed

lemma finished_by_underflow:
  assumes run: "run str evs (Trace client name) = Inr t" and fin: "t_finished t"
  shows "\<exists>es q t1. evs = es @ [ExitedFrame q] \<and> run str es (Trace client name) = Inr t1
           \<and> t_stack t1 = Some [Sentinel] \<and> finish t1 = Inr t"
proof (cases evs rule: rev_cases)
  case Nil
  with run have "t = Trace client name" by simp
  with fin show ?thesis by (simp add: Trace_def)
next
  case (snoc es e)
  from run_snoc_Inr[OF run[unfolded snoc]] obtain t1 where
    t1: "run str es (Trace client name) = Inr t1" and s: "step str t1 e = Inr t" by blast
  have wf1: "wf_trace t1" by (rule wf_reachable[OF t1])
  from wf1 s show ?thesis
  proof (cases rule: step_cases)
    case (enter st p)
    from live_not_finished[OF t1] enter(1) have "\<not> t_finished t1" by simp
    then show ?thesis using entered_fields(4)[OF enter(1)] enter(3) fin by simp
  next
    case (underflow q)
    then show ?thesis using snoc t1 by blast
  next
    case (exit st i k q)
    from live_not_finished[OF t1] exit(1) have "\<not> t_finished t1" by simp
    then show ?thesis using exited_fields(4)[OF exit(1)] exit(7) fin by simp
  qed
qed

lemma roundtrip_closed:
  fixes t :: "'v trace"
  assumes run: "run str evs (Trace client name) = Inr t"
    and safe: "\<forall>e\<in>set evs. json_safe (event_time e)"
    and closed: "t_stack t = Some [Sentinel]"
  shows "\<exists>j t'. toJSON t = Some j \<and> parseTrace str j = Inr t' \<and> toJSON t' = Some j
            \<and> t_finished t'"
proof -
  from closed_is_forest[OF run closed] obtain cs where cs: "evs = flatten_calls cs" by blast
  define j where "j = \<lparr>j_functions = map functionToJSON (t_functions t),
                        j_roots = json_calls (t_frames t) 0 cs\<rparr>"
  have tj: "toJSON t = Some j"
    unfolding j_def by (rule toJSON_ingested[OF run[unfolded cs]])
  let ?T = "Trace client name :: 'v trace" and ?N = "Trace None None :: 'v trace"
  have sim0: "sim ?T ?N" by (simp add: sim_def Trace_def)
  have idc0: "ids_consistent str ?T" by (simp add: ids_consistent_def Trace_def)
  have st0: "t_stack ?T = Some [Sentinel]" and l0: "length (t_frames ?T) = 0"
    by (simp_all add: Trace_def)
  from replay_calls(2)[OF wf_Trace wf_Trace sim0 idc0 st0 safe[unfolded cs] run[unfolded cs]
      stable_refl]
  obtain t' where r': "enterFrames str (map functionToJSON (t_functions t)) ?N
                         (json_calls (t_frames t) 0 cs) = Inr t'"
    and sim: "sim t t'"
    unfolding l0 by blast
  have p: "parseTrace str j = Inr (t'\<lparr>t_finished := True\<rparr>)"
    using r' by (simp add: parseTrace_def j_def)
  have "toJSON (t'\<lparr>t_finished := True\<rparr>) = toJSON t'" by (simp add: toJSON_def)
  also have "\<dots> = toJSON t" by (rule toJSON_sim[OF sim])
  finally have "toJSON (t'\<lparr>t_finished := True\<rparr>) = Some j" using tj by simp
  with tj p show ?thesis by auto
qed

subsection \<open>Serialize, re-ingest, serialize\<close>

text \<open>
  C1, as the code has it. Take a trace that ingestion has built from a new trace, that is
  finished or has every frame exited, and whose events all carry a time that JSON can
  hold (a finite number, \<open>null\<close>, or no time). Then \<open>toJSON\<close> gives a document,
  \<open>parseTrace\<close> on that document succeeds and gives a finished trace, and \<open>toJSON\<close>
  of that trace is the same document: serialize, re-ingest, serialize is idempotent.
\<close>

theorem roundtrip_idempotent:
  fixes t :: "'v trace"
  assumes run: "run str evs (Trace client name) = Inr t"
    and safe: "\<forall>e\<in>set evs. json_safe (event_time e)"
    and closed: "t_finished t \<or> t_stack t = Some [Sentinel]"
  shows "\<exists>j t'. toJSON t = Some j \<and> parseTrace str j = Inr t' \<and> toJSON t' = Some j
            \<and> t_finished t'"
proof (cases "t_finished t")
  case True
  from finished_by_underflow[OF run True] obtain es q t1 where
    evs: "evs = es @ [ExitedFrame q]" and r1: "run str es (Trace client name) = Inr t1"
    and st1: "t_stack t1 = Some [Sentinel]" and f: "finish t1 = Inr t" by blast
  from safe evs have safe1: "\<forall>e\<in>set es. json_safe (event_time e)" by simp
  have "toJSON t = toJSON t1"
    by (simp add: toJSON_def finish_fields(1,3,4)[OF f])
  with roundtrip_closed[OF r1 safe1 st1] show ?thesis by simp
next
  case False
  with closed have "t_stack t = Some [Sentinel]" by simp
  from roundtrip_closed[OF run safe this] show ?thesis .
qed

text \<open>
  Witness for C1: the scenario of the spec, A from 0 to 5 calling B from 1 to 3, closed by
  the exit that finishes the trace.
\<close>

theorem roundtrip_idempotent_witness:
  "(case run (\<lambda>_. []) [ent ''A'' (Number (Num 0)), ent ''B'' (Number (Num 1)),
                        ext (Number (Num 3)), ext (Number (Num 5)), ext (Number (Num 6))]
          (Trace (Some []) None) of
      Inl e \<Rightarrow> False
    | Inr t \<Rightarrow> t_finished t
        \<and> (\<exists>j t'. toJSON t = Some j \<and> parseTrace (\<lambda>_. []) j = Inr t' \<and> toJSON t' = Some j
               \<and> t_finished t'))"
proof -
  let ?evs = "[ent ''A'' (Number (Num 0)), ent ''B'' (Number (Num 1)),
               ext (Number (Num 3)), ext (Number (Num 5)), ext (Number (Num 6))]"
  obtain t where r: "run (\<lambda>_. []) ?evs (Trace (Some []) None) = Inr t"
    and fin: "t_finished t"
    by (simp add: model_defs)
  have safe: "\<forall>e\<in>set ?evs. json_safe (event_time e)" by (simp add: ent_def ext_def)
  from roundtrip_idempotent[OF r safe] fin show ?thesis unfolding r by simp
qed

text \<open>
  Counterexample to C1 as stated, for a time that JSON cannot hold. A is entered at 0 and
  exited at \<open>Infinity\<close>, and the trace is finished. Its total time \<open>Infinity\<close> is
  written \<open>null\<close> in the aggregated record, and so is the end time of the frame. The
  replay exits the frame at \<open>null\<close>, its total time is \<open>null - 0 = 0\<close>, and the second
  document has the total time 0 in the aggregated record.
\<close>

theorem roundtrip_counterexample:
  "(case run (\<lambda>_. []) [ent ''A'' (Number (Num 0)), ext (Number PosInf), ext (Number (Num 1))]
          (Trace (Some []) None) of
      Inl e \<Rightarrow> False
    | Inr t \<Rightarrow> t_finished t \<and> length (t_frames t) = 1
        \<and> f_endTime (t_frames t ! 0) = Number PosInf
        \<and> (case toJSON t of
             None \<Rightarrow> False
           | Some j \<Rightarrow> map jf_totalTime (j_functions j) = [Some JNull]
               \<and> (case parseTrace (\<lambda>_. []) j of
                    Inl e \<Rightarrow> False
                  | Inr t' \<Rightarrow>
                      (case toJSON t' of
                         None \<Rightarrow> False
                       | Some j' \<Rightarrow> map jf_totalTime (j_functions j') = [Some (JNum 0)]))))"
  by (simp add: model_defs toJSON_def parseTrace_def functionToJSON_def exitFrame_def)

end
